theory Spec2Isabelle
  imports Main "HOL-Library.Sublist"
begin

section \<open>Time and durations\<close>

text \<open>
  A \<open>time.Time\<close> is an instant, here the number of nanoseconds since a fixed epoch.
  A \<open>time.Duration\<close> is a signed 64-bit count of nanoseconds; it is kept as an
  \<open>int\<close> and the wrap-around of its arithmetic is written out with \<open>int64\<close>.
\<close>

type_synonym time = int
type_synonym duration = int

definition maxDuration :: duration where
  "maxDuration = 9223372036854775807"

definition minDuration :: duration where
  "minDuration = - 9223372036854775808"

definition int64 :: "int \<Rightarrow> duration" where
  "int64 x = (x + 9223372036854775808) mod 18446744073709551616 - 9223372036854775808"

text \<open>
  \<open>t.Sub(u)\<close> of package time: the difference, saturated at the largest and the
  smallest duration.
\<close>

definition time_Sub :: "time \<Rightarrow> time \<Rightarrow> duration" where
  "time_Sub t u =
     (if t - u > maxDuration then maxDuration
      else if t - u < minDuration then minDuration
      else t - u)"

text \<open>\<open>const deleteDelay = time.Hour\<close>, in nanoseconds.\<close>

definition deleteDelay :: duration where
  "deleteDelay = 3600000000000"

section \<open>Strings and paths\<close>

text \<open>The functions of package strings that the deleter calls.\<close>

fun HasPrefix :: "string \<Rightarrow> string \<Rightarrow> bool" where
  "HasPrefix s [] = True"
| "HasPrefix [] (c # cs) = False"
| "HasPrefix (x # xs) (c # cs) = (x = c \<and> HasPrefix xs cs)"

fun Contains :: "string \<Rightarrow> string \<Rightarrow> bool" where
  "Contains [] sub = (sub = [])"
| "Contains (x # xs) sub = (HasPrefix (x # xs) sub \<or> Contains xs sub)"

definition HasSuffix :: "string \<Rightarrow> string \<Rightarrow> bool" where
  "HasSuffix s suf = (length suf \<le> length s \<and> drop (length s - length suf) s = suf)"

definition TrimSuffix :: "string \<Rightarrow> string \<Rightarrow> string" where
  "TrimSuffix s suf = (if HasSuffix s suf then take (length s - length suf) s else s)"

definition CutSuffix :: "string \<Rightarrow> string \<Rightarrow> string \<times> bool" where
  "CutSuffix s suf =
     (if HasSuffix s suf then (take (length s - length suf) s, True) else (s, False))"

text \<open>
  Modelled from the spec: the constants \<open>partialSuffix\<close> and \<open>deletedSuffix\<close> are
  declared in another file of package taildrop. The spec calls them the fixed "partial"
  and "deleted" suffix markers and names the files \<open>fileA.partial\<close> and
  \<open>fileB.deleted\<close>.
\<close>

definition partialSuffix :: string where
  "partialSuffix = ''.partial''"

definition deletedSuffix :: string where
  "deletedSuffix = ''.deleted''"

text \<open>
  \<open>filepath.Join(dir, name)\<close> for a base name (no separator inside): an empty element is
  ignored, otherwise the two are joined by the separator.
\<close>

definition filepath_Join :: "string \<Rightarrow> string \<Rightarrow> string" where
  "filepath_Join dr nm = (if nm = [] then dr else dr @ ''/'' @ nm)"

section \<open>The file system\<close>

text \<open>
  The disk maps a path to what is there. \<open>os.Remove\<close> returns nil (\<open>None\<close>) and
  removes a deletable entry, returns an error for which \<open>os.IsNotExist\<close> holds when
  nothing is there, and returns another error (permission, file in use) otherwise.
\<close>

datatype fentry = Deletable | Undeletable

datatype oserr = ErrNotExist | ErrOther

type_synonym disk = "string \<Rightarrow> fentry option"

definition os_IsNotExist :: "oserr option \<Rightarrow> bool" where
  "os_IsNotExist err = (err = Some ErrNotExist)"

record dirent =
  Name :: string
  IsRegular :: bool

section \<open>The deleter\<close>

record deleteFile =
  name :: string
  inserted :: time

text \<open>
  A \<open>*list.Element\<close> is an identity (a number, fresh at every \<open>PushBack\<close>); the
  \<open>list.List\<close> is the list of its elements with their values, front first.
\<close>

type_synonym elem = nat

datatype panic = NilFuncCall

datatype wake = ShutdownDone | EmptySignal | TimerFired time

datatype task = InitScan | WaitAndDelete duration

datatype logline = CouldNotDelete oserr

text \<open>
  The fields of \<open>fileDeleter\<close>, followed by what the deleter acts on:
  \<^item> \<open>event\<close> is the hook, \<open>None\<close> for a nil func; a hook acts on the observer's
    list \<open>events\<close>;
  \<^item> \<open>clock\<close> gives the successive readings of \<open>d.clock.Now()\<close>, \<open>ticks\<close> counts
    the readings taken;
  \<^item> \<open>shutdownErr\<close> is \<open>d.shutdownCtx.Err() != nil\<close>;
  \<^item> \<open>emptySend\<close> holds while a send on \<open>emptySignal\<close> is offered;
  \<^item> \<open>groupTasks\<close> are the goroutines started with \<open>d.group.Go\<close> that have not run;
  \<^item> \<open>logs\<close> are the calls of \<open>d.logf\<close>, \<open>removes\<close> the paths given to
    \<open>os.Remove\<close>, in order.
\<close>

record fileDeleter =
  event :: "(string \<Rightarrow> string list \<Rightarrow> string list) option"
  dir :: string
  clock :: "nat \<Rightarrow> time"
  ticks :: nat
  queue :: "(elem \<times> deleteFile) list"
  nextElem :: elem
  byName :: "string \<Rightarrow> elem option"
  emptySend :: bool
  groupTasks :: "task list"
  shutdownErr :: bool
  disk :: disk
  logs :: "logline list"
  events :: "string list"
  removes :: "string list"

definition os_Remove :: "fileDeleter \<Rightarrow> string \<Rightarrow> oserr option \<times> fileDeleter" where
  "os_Remove d p =
     (case disk d p of
        None \<Rightarrow> (Some ErrNotExist, d\<lparr>removes := removes d @ [p]\<rparr>)
      | Some Undeletable \<Rightarrow> (Some ErrOther, d\<lparr>removes := removes d @ [p]\<rparr>)
      | Some Deletable \<Rightarrow> (None, d\<lparr>disk := (disk d)(p := None), removes := removes d @ [p]\<rparr>))"

definition call_event :: "fileDeleter \<Rightarrow> string \<Rightarrow> panic + fileDeleter" where
  "call_event d s =
     (case event d of
        None \<Rightarrow> Inl NilFuncCall
      | Some h \<Rightarrow> Inr (d\<lparr>events := h s (events d)\<rparr>))"

subsection \<open>Insert\<close>

definition Insert :: "fileDeleter \<Rightarrow> string \<Rightarrow> fileDeleter" where
  "Insert d baseName =
     (if shutdownErr d then d
      else if byName d baseName \<noteq> None then d
      else
        let e = nextElem d;
            d1 = d\<lparr>ticks := Suc (ticks d),
                   queue := queue d @ [(e, \<lparr>name = baseName, inserted = clock d (ticks d)\<rparr>)],
                   nextElem := Suc e,
                   byName := (byName d)(baseName \<mapsto> e)\<rparr>
        in if length (queue d1) = 1 \<and> \<not> shutdownErr d1
           then d1\<lparr>groupTasks := groupTasks d1 @ [WaitAndDelete deleteDelay]\<rparr>
           else d1)"

subsection \<open>Remove and Shutdown\<close>

definition list_Remove :: "elem \<Rightarrow> (elem \<times> deleteFile) list \<Rightarrow> (elem \<times> deleteFile) list" where
  "list_Remove e q = filter (\<lambda>x. fst x \<noteq> e) q"

definition Remove :: "fileDeleter \<Rightarrow> string \<Rightarrow> fileDeleter" where
  "Remove d baseName =
     (case byName d baseName of
        None \<Rightarrow> d
      | Some e \<Rightarrow>
          let d1 = d\<lparr>queue := list_Remove e (queue d),
                     byName := (byName d)(baseName := None)\<rparr>
          in if length (queue d1) = 0 \<and> \<not> shutdownErr d1
             then d1\<lparr>emptySend := True\<rparr>
             else d1)"

definition Shutdown :: "fileDeleter \<Rightarrow> fileDeleter" where
  "Shutdown d = d\<lparr>shutdownErr := True\<rparr>"

subsection \<open>waitAndDelete\<close>

text \<open>
  One iteration of the walk on an expired element: the result is the deleter and whether
  the element joins \<open>failed\<close>.
\<close>

definition deleteExpired :: "elem \<Rightarrow> deleteFile \<Rightarrow> fileDeleter \<Rightarrow> panic + (fileDeleter \<times> bool)" where
  "deleteExpired e file d =
     (let (nm, ok) = CutSuffix (name file) deletedSuffix;
          (err1, d1) = (if ok then os_Remove d (filepath_Join (dir d) nm) else (None, d))
      in if err1 \<noteq> None \<and> \<not> os_IsNotExist err1
         then Inr (d1\<lparr>logs := logs d1 @ [CouldNotDelete (the err1)]\<rparr>, True)
         else
           let (err2, d2) = os_Remove d1 (filepath_Join (dir d1) (name file))
           in if err2 \<noteq> None \<and> \<not> os_IsNotExist err2
              then Inr (d2\<lparr>logs := logs d2 @ [CouldNotDelete (the err2)]\<rparr>, True)
              else
                (case call_event
                        (d2\<lparr>queue := list_Remove e (queue d2),
                            byName := (byName d2)(name file := None)\<rparr>)
                        (''deleted '' @ name file) of
                   Inl p \<Rightarrow> Inl p
                 | Inr d3 \<Rightarrow> Inr (d3, False)))"

text \<open>
  The walk from \<open>d.queue.Front()\<close>: the second argument is the chain of elements from
  the current one on (an iteration removes at most its own element, so the chain behind it
  is the one the walk started with).
\<close>

fun sweep_loop :: "time \<Rightarrow> (elem \<times> deleteFile) list \<Rightarrow> fileDeleter \<Rightarrow> elem list
    \<Rightarrow> panic + (fileDeleter \<times> elem list)" where
  "sweep_loop now [] d failed = Inr (d, failed)"
| "sweep_loop now ((e, file) # rest) d failed =
     (if time_Sub now (inserted file) < deleteDelay then Inr (d, failed)
      else
        (case deleteExpired e file d of
           Inl p \<Rightarrow> Inl p
         | Inr (d1, True) \<Rightarrow> sweep_loop now rest d1 (failed @ [e])
         | Inr (d1, False) \<Rightarrow> sweep_loop now rest d1 failed))"

definition list_MoveToBack :: "elem \<Rightarrow> (elem \<times> deleteFile) list \<Rightarrow> (elem \<times> deleteFile) list" where
  "list_MoveToBack e q =
     (case filter (\<lambda>x. fst x = e) q of
        [] \<Rightarrow> q
      | x # _ \<Rightarrow> filter (\<lambda>x. fst x \<noteq> e) q @ [x])"

definition set_inserted :: "elem \<Rightarrow> time \<Rightarrow> (elem \<times> deleteFile) list \<Rightarrow> (elem \<times> deleteFile) list" where
  "set_inserted e now q = map (\<lambda>(e', f). if e' = e then (e', f\<lparr>inserted := now\<rparr>) else (e', f)) q"

definition requeue :: "time \<Rightarrow> elem \<Rightarrow> fileDeleter \<Rightarrow> fileDeleter" where
  "requeue now e d = d\<lparr>queue := list_MoveToBack e (set_inserted e now (queue d))\<rparr>"

definition respawn :: "time \<Rightarrow> fileDeleter \<Rightarrow> fileDeleter" where
  "respawn now d =
     (case queue d of
        [] \<Rightarrow> d
      | (e, file) # _ \<Rightarrow>
          if shutdownErr d then d
          else
            let retryAfter = int64 (deleteDelay - time_Sub now (inserted file))
            in d\<lparr>groupTasks := groupTasks d @ [WaitAndDelete retryAfter]\<rparr>)"

definition sweep :: "fileDeleter \<Rightarrow> time \<Rightarrow> panic + fileDeleter" where
  "sweep d now =
     (case sweep_loop now (queue d) d [] of
        Inl p \<Rightarrow> Inl p
      | Inr (d1, failed) \<Rightarrow> Inr (respawn now (fold (requeue now) failed d1)))"

definition waitAndDelete :: "fileDeleter \<Rightarrow> duration \<Rightarrow> wake \<Rightarrow> panic + fileDeleter" where
  "waitAndDelete d wait w =
     (case call_event d ''start waitAndDelete'' of
        Inl p \<Rightarrow> Inl p
      | Inr d1 \<Rightarrow>
          (case (case w of
                   ShutdownDone \<Rightarrow> Inr d1
                 | EmptySignal \<Rightarrow> Inr (d1\<lparr>emptySend := False\<rparr>)
                 | TimerFired now \<Rightarrow> sweep d1 now) of
             Inl p \<Rightarrow> Inl p
           | Inr d2 \<Rightarrow> call_event d2 ''end waitAndDelete''))"

subsection \<open>Init and the cold-start scan\<close>

text \<open>
  Modelled from the spec: \<open>rangeDir\<close> is declared in another file of package taildrop.
  It lists the entries of the directory and calls the function on each one, until the
  function returns false.
\<close>

fun rangeDir :: "dirent list \<Rightarrow> (dirent \<Rightarrow> 's \<Rightarrow> bool \<times> 's) \<Rightarrow> 's \<Rightarrow> 's" where
  "rangeDir [] fn s = s"
| "rangeDir (de # des) fn s =
     (case fn de s of
        (False, s1) \<Rightarrow> s1
      | (True, s1) \<Rightarrow> rangeDir des fn s1)"

text \<open>The function that \<open>Init\<close> gives to \<open>rangeDir\<close>.\<close>

definition scanEntry :: "dirent \<Rightarrow> fileDeleter \<Rightarrow> bool \<times> fileDeleter" where
  "scanEntry de d =
     (if shutdownErr d then (False, d)
      else if \<not> IsRegular de then (True, d)
      else if Contains (Name de) partialSuffix then (True, Insert d (Name de))
      else if Contains (Name de) deletedSuffix then
        (let nm = TrimSuffix (Name de) deletedSuffix;
             (err1, d1) = os_Remove d (filepath_Join (dir d) nm)
         in if err1 = None
            then (let (err2, d2) = os_Remove d1 (filepath_Join (dir d1) (Name de))
                  in if err2 = None then (True, d2) else (True, Insert d2 (Name de)))
            else (True, Insert d1 (Name de)))
      else (True, d))"

text \<open>The goroutine that \<open>Init\<close> starts; the argument is the listing of the directory.\<close>

definition initScan :: "fileDeleter \<Rightarrow> dirent list \<Rightarrow> panic + fileDeleter" where
  "initScan d des =
     (case call_event d ''start init'' of
        Inl p \<Rightarrow> Inl p
      | Inr d1 \<Rightarrow> call_event (rangeDir des scanEntry d1) ''end init'')"

text \<open>
  \<open>Init\<close> on a zero \<open>fileDeleter\<close>; the log sink is the field \<open>logs\<close>, and the last
  argument is the disk at that moment.
\<close>

definition Init :: "(nat \<Rightarrow> time) \<Rightarrow> (string \<Rightarrow> string list \<Rightarrow> string list) option \<Rightarrow> string
    \<Rightarrow> disk \<Rightarrow> fileDeleter" where
  "Init clk ev dr dsk =
     \<lparr>event = ev, dir = dr, clock = clk, ticks = 0, queue = [], nextElem = 0,
      byName = Map.empty, emptySend = False, groupTasks = [InitScan],
      shutdownErr = False, disk = dsk, logs = [], events = [], removes = []\<rparr>"

subsection \<open>Runs\<close>

text \<open>
  The operations and goroutines of one deleter, one after the other: the calls of the
  public methods, a goroutine of \<open>groupTasks\<close> running (the listing of the directory
  and the branch that its \<open>select\<close> takes come from outside), and a change of the disk
  by someone else. A goroutine runs only if \<open>d.group.Go\<close> started it, and its
  \<open>select\<close> takes a branch only if that branch is ready.
\<close>

datatype op =
    OpInsert string
  | OpRemove string
  | OpShutdown
  | OpInitScan "dirent list"
  | OpWaitAndDelete duration wake
  | OpDisk string "fentry option"

definition wake_ready :: "fileDeleter \<Rightarrow> wake \<Rightarrow> bool" where
  "wake_ready d w =
     (case w of
        ShutdownDone \<Rightarrow> shutdownErr d
      | EmptySignal \<Rightarrow> emptySend d
      | TimerFired now \<Rightarrow> True)"

fun exec :: "op \<Rightarrow> fileDeleter \<Rightarrow> panic + fileDeleter" where
  "exec (OpInsert n) d = Inr (Insert d n)"
| "exec (OpRemove n) d = Inr (Remove d n)"
| "exec OpShutdown d = Inr (Shutdown d)"
| "exec (OpInitScan des) d =
     (if InitScan \<in> set (groupTasks d)
      then initScan (d\<lparr>groupTasks := remove1 InitScan (groupTasks d)\<rparr>) des
      else Inr d)"
| "exec (OpWaitAndDelete wait w) d =
     (if WaitAndDelete wait \<in> set (groupTasks d) \<and> wake_ready d w
      then waitAndDelete (d\<lparr>groupTasks := remove1 (WaitAndDelete wait) (groupTasks d)\<rparr>) wait w
      else Inr d)"
| "exec (OpDisk p x) d = Inr (d\<lparr>disk := (disk d)(p := x)\<rparr>)"

fun run :: "op list \<Rightarrow> fileDeleter \<Rightarrow> panic + fileDeleter" where
  "run [] d = Inr d"
| "run (x # xs) d = (case exec x d of Inl p \<Rightarrow> Inl p | Inr d1 \<Rightarrow> run xs d1)"

subsection \<open>The store\<close>

text \<open>The names of the records of a queue, front first.\<close>

definition names :: "(elem \<times> deleteFile) list \<Rightarrow> string list" where
  "names q = map (\<lambda>x. name (snd x)) q"

text \<open>
  The queue and its index agree: the elements of the queue are distinct and older than
  \<open>nextElem\<close>, and the index gives an element for a name exactly when that element is
  in the queue with a record of that name.
\<close>

definition store_ok :: "fileDeleter \<Rightarrow> bool" where
  "store_ok d =
     (distinct (map fst (queue d))
      \<and> (\<forall>x \<in> set (queue d). fst x < nextElem d)
      \<and> (\<forall>n e. byName d n = Some e \<longleftrightarrow> (\<exists>f. (e, f) \<in> set (queue d) \<and> name f = n)))"

text \<open>The test of the walk: the record is at least \<open>deleteDelay\<close> old.\<close>

definition expired :: "time \<Rightarrow> elem \<times> deleteFile \<Rightarrow> bool" where
  "expired now x = (\<not> time_Sub now (inserted (snd x)) < deleteDelay)"

text \<open>
  The paths that the walk gives to \<open>os.Remove\<close> for a record, in that order: the
  companion of a tombstone, then the file of the record.
\<close>

definition targets :: "string \<Rightarrow> deleteFile \<Rightarrow> string list" where
  "targets dr f =
     (case CutSuffix (name f) deletedSuffix of
        (nm, True) \<Rightarrow> [filepath_Join dr nm, filepath_Join dr (name f)]
      | (nm, False) \<Rightarrow> [filepath_Join dr (name f)])"

text \<open>
  The attempt on a record fails when \<open>os.Remove\<close> finds one of its paths undeletable
  (a path with nothing there does not count).
\<close>

definition remove_fails :: "fileDeleter \<Rightarrow> deleteFile \<Rightarrow> bool" where
  "remove_fails d f = (\<exists>p \<in> set (targets (dir d) f). disk d p = Some Undeletable)"

text \<open>A failed record as the sweep puts it back: the same element and name, inserted now.\<close>

definition restamp :: "time \<Rightarrow> elem \<times> deleteFile \<Rightarrow> elem \<times> deleteFile" where
  "restamp now x = (fst x, (snd x)\<lparr>inserted := now\<rparr>)"




subsection \<open>A store to run the deleter on\<close>

text \<open>
  A hook that records its argument, and a deleter at work in directory \<open>d\<close>: the
  tombstone \<open>a.deleted\<close> (its companion \<open>a\<close> is not on the disk) and \<open>b\<close> (which
  cannot be deleted) were inserted at time 0, \<open>c\<close> at time 10; the worker started by
  the first insertion has not run yet.
\<close>

definition rec_hook :: "string \<Rightarrow> string list \<Rightarrow> string list" where
  "rec_hook s tr = tr @ [s]"

definition ex_store :: fileDeleter where
  "ex_store =
     \<lparr>event = Some rec_hook, dir = ''d'', clock = (\<lambda>n. 10), ticks = 5,
      queue = [(2, \<lparr>name = ''a.deleted'', inserted = 0\<rparr>),
               (3, \<lparr>name = ''b'', inserted = 0\<rparr>),
               (4, \<lparr>name = ''c'', inserted = 10\<rparr>)],
      nextElem = 5,
      byName = map_of [(''a.deleted'', 2), (''b'', 3), (''c'', 4)],
      emptySend = False, groupTasks = [WaitAndDelete deleteDelay], shutdownErr = False,
      disk = [''d/a.deleted'' \<mapsto> Deletable, ''d/b'' \<mapsto> Undeletable, ''d/c'' \<mapsto> Deletable],
      logs = [], events = [], removes = []\<rparr>"

text \<open>
  A deleter whose only record was inserted when the clock read \<open>2^63\<close> nanoseconds
  after the epoch; the clock is an injected one and may be set back afterwards.
\<close>

definition ex_future :: fileDeleter where
  "ex_future =
     \<lparr>event = Some rec_hook, dir = ''d'', clock = (\<lambda>n. 9223372036854775808), ticks = 1,
      queue = [(0, \<lparr>name = ''a'', inserted = 9223372036854775808\<rparr>)],
      nextElem = 1,
      byName = map_of [(''a'', 0)],
      emptySend = False, groupTasks = [], shutdownErr = False,
      disk = [''d/a'' \<mapsto> Deletable],
      logs = [], events = [], removes = []\<rparr>"

text \<open>
  A deleter right after \<open>Init\<close>, on a directory that holds \<open>fileA.partial\<close>, the
  tombstone \<open>fileB.deleted\<close> and its companion \<open>fileB\<close>.
\<close>

definition ex_cold :: fileDeleter where
  "ex_cold =
     Init (clock ex_store) (Some rec_hook) ''d''
       [''d/fileA.partial'' \<mapsto> Deletable, ''d/fileB'' \<mapsto> Deletable,
        ''d/fileB.deleted'' \<mapsto> Deletable]"

section \<open>Lemmas on the operations\<close>

lemma os_Remove_fst:
  "fst (os_Remove d p) =
     (case disk d p of None \<Rightarrow> Some ErrNotExist | Some Undeletable \<Rightarrow> Some ErrOther
      | Some Deletable \<Rightarrow> None)"
  by (simp add: os_Remove_def split: option.split fentry.split)

lemma os_Remove_snd:
  "snd (os_Remove d p) =
     d\<lparr>disk := (if disk d p = Some Deletable then (disk d)(p := None) else disk d),
       removes := removes d @ [p]\<rparr>"
  by (simp add: os_Remove_def split: option.split fentry.split)

lemma CutSuffix_eq:
  "CutSuffix s suf = (TrimSuffix s suf, HasSuffix s suf)"
  by (simp add: CutSuffix_def TrimSuffix_def)

lemma deleteExpired_frame:
  assumes "deleteExpired e file d = Inr (d', b)"
  shows "queue d' = (if b then queue d else list_Remove e (queue d))"
    and "byName d' = (if b then byName d else (byName d)(name file := None))"
    and "nextElem d' = nextElem d" and "shutdownErr d' = shutdownErr d"
    and "groupTasks d' = groupTasks d" and "dir d' = dir d" and "event d' = event d"
    and "clock d' = clock d" and "ticks d' = ticks d" and "emptySend d' = emptySend d"
  using assms
  by (auto simp: deleteExpired_def Let_def CutSuffix_eq os_Remove_snd os_Remove_fst call_event_def
      split_beta os_IsNotExist_def
      split: if_splits option.splits sum.splits fentry.splits)

lemma deleteExpired_removes:
  assumes "deleteExpired e file d = Inr (d', b)"
  shows "\<exists>c. removes d' = removes d @ c \<and> c \<noteq> [] \<and> prefix c (targets (dir d) file)"
  using assms
  by (auto simp: deleteExpired_def Let_def CutSuffix_eq os_Remove_snd os_Remove_fst call_event_def
      split_beta os_IsNotExist_def targets_def
      split: if_splits option.splits sum.splits fentry.splits)

lemma deleteExpired_logs:
  assumes "deleteExpired e file d = Inr (d', b)"
  shows "logs d' = logs d @ (if b then [CouldNotDelete ErrOther] else [])"
  using assms
  by (auto simp: deleteExpired_def Let_def CutSuffix_eq os_Remove_snd os_Remove_fst call_event_def
      split_beta os_IsNotExist_def
      split: if_splits option.splits sum.splits fentry.splits)

lemma deleteExpired_total:
  assumes "event d = Some h"
  shows "\<exists>d' b. deleteExpired e file d = Inr (d', b)"
  using assms
  by (auto simp: deleteExpired_def Let_def CutSuffix_eq os_Remove_snd os_Remove_fst call_event_def
      split_beta os_IsNotExist_def
      split: if_splits option.splits sum.splits fentry.splits)

lemma store_ok_deleteExpired:
  assumes ok: "store_ok d" and mem: "(e, file) \<in> set (queue d)"
    and step: "deleteExpired e file d = Inr (d', b)"
  shows "store_ok d'"
proof (cases b)
  case True
  with ok deleteExpired_frame(1,2,3)[OF step] show ?thesis by (simp add: store_ok_def)
next
  case False
  have q: "queue d' = list_Remove e (queue d)"
    and bn: "byName d' = (byName d)(name file := None)"
    and ne: "nextElem d' = nextElem d"
    using False deleteExpired_frame(1,2,3)[OF step] by simp_all
  have dist: "distinct (map fst (queue d))"
    and idx: "\<And>n e'. byName d n = Some e' \<longleftrightarrow> (\<exists>f. (e', f) \<in> set (queue d) \<and> name f = n)"
    and bound: "\<And>x. x \<in> set (queue d) \<Longrightarrow> fst x < nextElem d"
    using ok by (auto simp: store_ok_def)
  have uniq: "\<And>f. (e, f) \<in> set (queue d) \<Longrightarrow> f = file"
    using dist mem by (meson eq_key_imp_eq_value)
  have 1: "distinct (map fst (queue d'))"
    using dist by (simp add: q list_Remove_def distinct_map_filter)
  have 2: "\<forall>x \<in> set (queue d'). fst x < nextElem d'"
    using bound by (simp add: q ne list_Remove_def)
  have 3: "byName d' n = Some e' \<longleftrightarrow> (\<exists>f. (e', f) \<in> set (queue d') \<and> name f = n)" for n e'
  proof (cases "n = name file")
    case True
    have "\<not> (\<exists>f. (e', f) \<in> set (queue d') \<and> name f = n)"
    proof
      assume "\<exists>f. (e', f) \<in> set (queue d') \<and> name f = n"
      then obtain f where f: "(e', f) \<in> set (queue d)" "e' \<noteq> e" "name f = name file"
        using True by (auto simp: q list_Remove_def)
      from f(1,3) have "byName d (name file) = Some e'" using idx by blast
      moreover from mem have "byName d (name file) = Some e" using idx by blast
      ultimately show False using f(2) by simp
    qed
    then show ?thesis by (simp add: bn True)
  next
    case False
    have "(\<exists>f. (e', f) \<in> set (queue d') \<and> name f = n) \<longleftrightarrow> (\<exists>f. (e', f) \<in> set (queue d) \<and> name f = n)"
      using False uniq by (auto simp: q list_Remove_def)
    then show ?thesis using False by (simp add: bn idx)
  qed
  show ?thesis unfolding store_ok_def using 1 2 3 by blast
qed

lemma list_Remove_mid:
  assumes "distinct (map fst (K @ (e, f) # rest))"
  shows "list_Remove e (K @ (e, f) # rest) = K @ rest"
proof -
  have "\<forall>x \<in> set K. fst x \<noteq> e" "\<forall>x \<in> set rest. fst x \<noteq> e"
    using assms by (auto simp: image_iff)
  then show ?thesis by (simp add: list_Remove_def filter_id_conv)
qed

lemma sweep_loop_queue:
  assumes "sweep_loop now rest d failed = Inr (d', failed')"
    and "queue d = K @ rest" and "distinct (map fst (K @ rest))"
  shows "\<exists>K'. queue d' = K @ K' @ dropWhile (expired now) rest
            \<and> failed' = failed @ map fst K'
            \<and> subseq K' (takeWhile (expired now) rest)"
  using assms
proof (induction rest arbitrary: d failed K)
  case Nil
  then show ?case by simp
next
  case (Cons x rest)
  obtain e fl where x: "x = (e, fl)" by (cases x)
  show ?case
  proof (cases "expired now x")
    case False
    then show ?thesis using Cons.prems by (simp add: x expired_def)
  next
    case True
    then have ex: "\<not> time_Sub now (inserted fl) < deleteDelay" by (simp add: x expired_def)
    from Cons.prems(1) ex obtain d1 b where
      step: "deleteExpired e fl d = Inr (d1, b)"
      and rest: "sweep_loop now rest d1 (if b then failed @ [e] else failed) = Inr (d', failed')"
      by (auto simp: x split: sum.splits bool.splits)
    show ?thesis
    proof (cases b)
      case True
      have q1: "queue d1 = (K @ [x]) @ rest"
        using deleteExpired_frame(1)[OF step] True Cons.prems(2) by simp
      have "distinct (map fst ((K @ [x]) @ rest))" using Cons.prems(3) by simp
      from Cons.IH[OF _ q1 this, of "failed @ [e]"] rest True
      obtain K' where K': "queue d' = (K @ [x]) @ K' @ dropWhile (expired now) rest"
        "failed' = (failed @ [e]) @ map fst K'" "subseq K' (takeWhile (expired now) rest)"
        by auto
      have "queue d' = K @ (x # K') @ dropWhile (expired now) (x # rest)"
        using K'(1) \<open>expired now x\<close> by simp
      moreover have "failed' = failed @ map fst (x # K')" using K'(2) by (simp add: x)
      moreover have "subseq (x # K') (takeWhile (expired now) (x # rest))"
        using K'(3) \<open>expired now x\<close> by simp
      ultimately show ?thesis by blast
    next
      case False
      have q1: "queue d1 = K @ rest"
        using deleteExpired_frame(1)[OF step] False Cons.prems(2,3) list_Remove_mid[of K e fl rest]
        by (simp add: x)
      have "distinct (map fst (K @ rest))" using Cons.prems(3) by simp
      from Cons.IH[OF _ q1 this, of failed] rest False
      obtain K' where K': "queue d' = K @ K' @ dropWhile (expired now) rest"
        "failed' = failed @ map fst K'" "subseq K' (takeWhile (expired now) rest)"
        by auto
      have "queue d' = K @ K' @ dropWhile (expired now) (x # rest)"
        using K'(1) \<open>expired now x\<close> by simp
      moreover have "subseq K' (takeWhile (expired now) (x # rest))"
        using K'(3) \<open>expired now x\<close> by (auto intro: list_emb_Cons)
      ultimately show ?thesis using K'(2) by blast
    qed
  qed
qed

lemma sweep_loop_frame:
  assumes "sweep_loop now rest d failed = Inr (d', failed')"
  shows "nextElem d' = nextElem d \<and> shutdownErr d' = shutdownErr d
       \<and> groupTasks d' = groupTasks d \<and> dir d' = dir d \<and> event d' = event d
       \<and> clock d' = clock d \<and> ticks d' = ticks d \<and> emptySend d' = emptySend d"
  using assms
proof (induction rest arbitrary: d failed)
  case Nil
  then show ?case by simp
next
  case (Cons x rest)
  obtain e fl where x: "x = (e, fl)" by (cases x)
  show ?case
  proof (cases "expired now x")
    case False
    then show ?thesis using Cons.prems by (simp add: x expired_def)
  next
    case True
    then have ex: "\<not> time_Sub now (inserted fl) < deleteDelay" by (simp add: x expired_def)
    from Cons.prems(1) ex obtain d1 b where
      step: "deleteExpired e fl d = Inr (d1, b)"
      and rest: "sweep_loop now rest d1 (if b then failed @ [e] else failed) = Inr (d', failed')"
      by (auto simp: x split: sum.splits bool.splits)
    from Cons.IH[OF rest] deleteExpired_frame(3-10)[OF step] show ?thesis by simp
  qed
qed

lemma sweep_loop_total:
  assumes "event d = Some h"
  shows "\<exists>r. sweep_loop now rest d failed = Inr r"
  using assms
proof (induction rest arbitrary: d failed)
  case Nil
  then show ?case by simp
next
  case (Cons x rest)
  obtain e fl where x: "x = (e, fl)" by (cases x)
  from deleteExpired_total[OF Cons.prems] obtain d1 b where
    step: "deleteExpired e fl d = Inr (d1, b)" by blast
  have "event d1 = Some h" using deleteExpired_frame(7)[OF step] Cons.prems by simp
  from Cons.IH[OF this] show ?case
    by (cases b) (auto simp: x step)
qed

lemma sweep_loop_removes:
  assumes "sweep_loop now rest d failed = Inr (d', failed')"
  shows "\<exists>chunks. removes d' = removes d @ concat chunks
            \<and> list_all2 (\<lambda>x c. c \<noteq> [] \<and> prefix c (targets (dir d) (snd x)))
                 (takeWhile (expired now) rest) chunks"
  using assms
proof (induction rest arbitrary: d failed)
  case Nil
  then show ?case by simp
next
  case (Cons x rest)
  obtain e fl where x: "x = (e, fl)" by (cases x)
  show ?case
  proof (cases "expired now x")
    case False
    then show ?thesis using Cons.prems by (simp add: x expired_def)
  next
    case True
    then have ex: "\<not> time_Sub now (inserted fl) < deleteDelay" by (simp add: x expired_def)
    from Cons.prems(1) ex obtain d1 b where
      step: "deleteExpired e fl d = Inr (d1, b)"
      and rest: "sweep_loop now rest d1 (if b then failed @ [e] else failed) = Inr (d', failed')"
      by (auto simp: x split: sum.splits bool.splits)
    from deleteExpired_removes[OF step] obtain c where
      c: "removes d1 = removes d @ c" "c \<noteq> []" "prefix c (targets (dir d) fl)" by blast
    from Cons.IH[OF rest] deleteExpired_frame(6)[OF step] obtain chunks where
      ch: "removes d' = removes d1 @ concat chunks"
        "list_all2 (\<lambda>x c. c \<noteq> [] \<and> prefix c (targets (dir d) (snd x)))
                 (takeWhile (expired now) rest) chunks" by auto
    have "removes d' = removes d @ concat (c # chunks)" using c(1) ch(1) by simp
    moreover have "list_all2 (\<lambda>x c. c \<noteq> [] \<and> prefix c (targets (dir d) (snd x)))
                 (takeWhile (expired now) (x # rest)) (c # chunks)"
      using True c(2,3) ch(2) by (simp add: x)
    ultimately show ?thesis by blast
  qed
qed

lemma store_ok_sweep_loop:
  assumes "sweep_loop now rest d failed = Inr (d', failed')"
    and "store_ok d" and "queue d = K @ rest"
  shows "store_ok d'"
  using assms
proof (induction rest arbitrary: d failed K)
  case Nil
  then show ?case by simp
next
  case (Cons x rest)
  obtain e fl where x: "x = (e, fl)" by (cases x)
  show ?case
  proof (cases "expired now x")
    case False
    then show ?thesis using Cons.prems by (simp add: x expired_def)
  next
    case True
    then have ex: "\<not> time_Sub now (inserted fl) < deleteDelay" by (simp add: x expired_def)
    from Cons.prems(1) ex obtain d1 b where
      step: "deleteExpired e fl d = Inr (d1, b)"
      and rest: "sweep_loop now rest d1 (if b then failed @ [e] else failed) = Inr (d', failed')"
      by (auto simp: x split: sum.splits bool.splits)
    have mem: "(e, fl) \<in> set (queue d)" using Cons.prems(3) by (simp add: x)
    have ok1: "store_ok d1" by (rule store_ok_deleteExpired[OF Cons.prems(2) mem step])
    have dist: "distinct (map fst (K @ (e, fl) # rest))"
      using Cons.prems(2,3) by (simp add: store_ok_def x)
    have "\<exists>K1. queue d1 = K1 @ rest"
    proof (cases b)
      case True
      then have "queue d1 = (K @ [x]) @ rest"
        using deleteExpired_frame(1)[OF step] Cons.prems(3) by simp
      then show ?thesis by blast
    next
      case False
      then have "queue d1 = K @ rest"
        using deleteExpired_frame(1)[OF step] Cons.prems(3) list_Remove_mid[OF dist]
        by (simp add: x)
      then show ?thesis by blast
    qed
    then obtain K1 where "queue d1 = K1 @ rest" by blast
    from Cons.IH[OF rest ok1 this] show ?thesis .
  qed
qed

lemma set_inserted_other:
  assumes "\<forall>x \<in> set q. fst x \<noteq> e"
  shows "set_inserted e now q = q"
  using assms by (induction q) (auto simp: set_inserted_def)

lemma requeue_front:
  assumes "distinct (map fst (a # q))" and "queue d = a # q"
  shows "queue (requeue now (fst a) d) = q @ [restamp now a]"
proof -
  have other: "\<forall>x \<in> set q. fst x \<noteq> fst a" using assms(1) by (auto simp: image_iff)
  have "set_inserted (fst a) now (a # q) = restamp now a # q"
    using set_inserted_other[OF other, of now]
    by (cases a) (simp add: set_inserted_def restamp_def)
  moreover have "filter (\<lambda>x. fst x = fst a) q = []" "filter (\<lambda>x. fst x \<noteq> fst a) q = q"
    using other by (simp_all add: filter_empty_conv filter_id_conv)
  ultimately show ?thesis
    by (simp add: requeue_def list_MoveToBack_def assms(2) restamp_def)
qed

lemma requeue_frame:
  "nextElem (requeue now e d) = nextElem d" "byName (requeue now e d) = byName d"
  "shutdownErr (requeue now e d) = shutdownErr d" "groupTasks (requeue now e d) = groupTasks d"
  "dir (requeue now e d) = dir d" "event (requeue now e d) = event d"
  "removes (requeue now e d) = removes d" "logs (requeue now e d) = logs d"
  "disk (requeue now e d) = disk d" "events (requeue now e d) = events d"
  "emptySend (requeue now e d) = emptySend d" "clock (requeue now e d) = clock d"
  "ticks (requeue now e d) = ticks d"
  by (simp_all add: requeue_def)

lemma fold_requeue_frame:
  "nextElem (fold (requeue now) es d) = nextElem d \<and> byName (fold (requeue now) es d) = byName d
   \<and> shutdownErr (fold (requeue now) es d) = shutdownErr d
   \<and> groupTasks (fold (requeue now) es d) = groupTasks d
   \<and> dir (fold (requeue now) es d) = dir d \<and> event (fold (requeue now) es d) = event d
   \<and> removes (fold (requeue now) es d) = removes d \<and> logs (fold (requeue now) es d) = logs d
   \<and> disk (fold (requeue now) es d) = disk d \<and> events (fold (requeue now) es d) = events d
   \<and> emptySend (fold (requeue now) es d) = emptySend d
   \<and> clock (fold (requeue now) es d) = clock d \<and> ticks (fold (requeue now) es d) = ticks d"
  by (induction es arbitrary: d) (simp_all add: requeue_frame)

lemma fold_requeue_queue:
  assumes "distinct (map fst (A @ B))" and "queue d = A @ B"
  shows "queue (fold (requeue now) (map fst A) d) = B @ map (restamp now) A"
  using assms
proof (induction A arbitrary: d B)
  case Nil
  then show ?case by simp
next
  case (Cons a A)
  have 1: "queue (requeue now (fst a) d) = A @ (B @ [restamp now a])"
    using requeue_front[of a "A @ B" d now] Cons.prems by simp
  have 2: "distinct (map fst (A @ (B @ [restamp now a])))"
    using Cons.prems(1) by (auto simp: restamp_def)
  from Cons.IH[OF 2 1] show ?case by simp
qed

lemma store_ok_queue_cong:
  assumes "store_ok d"
    and "distinct (map fst (queue d'))"
    and "set (map (\<lambda>x. (fst x, name (snd x))) (queue d')) = set (map (\<lambda>x. (fst x, name (snd x))) (queue d))"
    and "byName d' = byName d" and "nextElem d' = nextElem d"
  shows "store_ok d'"
proof -
  have k: "(\<exists>f. (e, f) \<in> set q \<and> name f = n) \<longleftrightarrow> (e, n) \<in> set (map (\<lambda>x. (fst x, name (snd x))) q)"
    for q :: "(elem \<times> deleteFile) list" and e n
    by force
  have eq: "(\<exists>f. (e, f) \<in> set (queue d') \<and> name f = n) \<longleftrightarrow> (\<exists>f. (e, f) \<in> set (queue d) \<and> name f = n)" for e n
    unfolding k assms(3) ..
  have bd: "\<forall>y \<in> set (queue d). fst y < nextElem d"
    using assms(1) by (simp add: store_ok_def)
  have b: "fst x < nextElem d" if "x \<in> set (queue d')" for x
  proof -
    have "(fst x, name (snd x)) \<in> (\<lambda>x. (fst x, name (snd x))) ` set (queue d')"
      using that by (rule imageI)
    then have "(fst x, name (snd x)) \<in> (\<lambda>x. (fst x, name (snd x))) ` set (queue d)"
      using assms(3) by simp
    then obtain y where "y \<in> set (queue d)" "(fst x, name (snd x)) = (fst y, name (snd y))"
      by (rule imageE)
    then show ?thesis using bd by simp
  qed
  have idx: "\<forall>n e. byName d n = Some e \<longleftrightarrow> (\<exists>f. (e, f) \<in> set (queue d) \<and> name f = n)"
    using assms(1) by (simp add: store_ok_def)
  show ?thesis
    unfolding store_ok_def using assms(2) b idx by (simp add: assms(4,5) eq)
qed

lemma store_ok_fold_requeue:
  assumes "store_ok d" and "queue d = A @ B"
  shows "store_ok (fold (requeue now) (map fst A) d)"
proof -
  have dist: "distinct (map fst (A @ B))" using assms by (simp add: store_ok_def)
  have q: "queue (fold (requeue now) (map fst A) d) = B @ map (restamp now) A"
    by (rule fold_requeue_queue[OF dist assms(2)])
  have m: "map fst (map (restamp now) A) = map fst A"
    "map (\<lambda>x. (fst x, name (snd x))) (map (restamp now) A) = map (\<lambda>x. (fst x, name (snd x))) A"
    by (simp_all add: restamp_def)
  show ?thesis
  proof (rule store_ok_queue_cong[OF assms(1)])
    show "distinct (map fst (queue (fold (requeue now) (map fst A) d)))"
      using dist by (auto simp: q restamp_def comp_def)
    show "set (map (\<lambda>x. (fst x, name (snd x))) (queue (fold (requeue now) (map fst A) d)))
        = set (map (\<lambda>x. (fst x, name (snd x))) (queue d))"
      unfolding q assms(2) map_append m by auto
  qed (simp_all add: fold_requeue_frame)
qed

lemma store_ok_respawn: "store_ok (respawn now d) = store_ok d"
  by (simp add: respawn_def store_ok_def Let_def split: list.split prod.split)

lemma respawn_queue: "queue (respawn now d) = queue d"
  by (simp add: respawn_def Let_def split: list.split prod.split)

lemma subseq_distinct:
  assumes "subseq xs ys" and "distinct ys"
  shows "distinct xs"
  using assms by (auto simp: subseq_conv_nths)

lemma subseq_front_distinct:
  assumes "distinct (map fst (T @ D))" and "subseq K T"
  shows "distinct (map fst (K @ D))"
proof -
  have "subseq (K @ D) (T @ D)" using assms(2) by simp
  then have "subseq (map fst (K @ D)) (map fst (T @ D))" by (rule subseq_map)
  then show ?thesis using assms(1) by (rule subseq_distinct)
qed

lemma store_ok_sweep:
  assumes "sweep d now = Inr d'" and "store_ok d"
  shows "store_ok d'"
proof -
  from assms(1) obtain d1 failed where
    loop: "sweep_loop now (queue d) d [] = Inr (d1, failed)"
    and d': "d' = respawn now (fold (requeue now) failed d1)"
    by (auto simp: sweep_def split: sum.splits)
  have ok1: "store_ok d1"
    by (rule store_ok_sweep_loop[OF loop assms(2), of "[]"]) simp
  from sweep_loop_queue[OF loop, of "[]"] assms(2) obtain K where
    K: "queue d1 = K @ dropWhile (expired now) (queue d)" "failed = map fst K"
    by (auto simp: store_ok_def)
  show ?thesis
    using store_ok_fold_requeue[OF ok1 K(1), of now] by (simp add: d' K(2) store_ok_respawn)
qed

lemma store_ok_fields:
  assumes "store_ok d" and "queue d' = queue d" and "byName d' = byName d"
    and "nextElem d' = nextElem d"
  shows "store_ok d'"
  using assms by (simp add: store_ok_def)

lemma store_ok_Init: "store_ok (Init clk ev dr dsk)"
  by (simp add: Init_def store_ok_def)

lemma store_ok_Shutdown: "store_ok d \<Longrightarrow> store_ok (Shutdown d)"
  by (simp add: Shutdown_def store_ok_def)

lemma store_ok_call_event: "store_ok d \<Longrightarrow> call_event d s = Inr d' \<Longrightarrow> store_ok d'"
  by (auto simp: call_event_def split: option.splits intro: store_ok_fields)

lemma store_ok_Insert:
  assumes "store_ok d"
  shows "store_ok (Insert d n)"
proof (cases "shutdownErr d \<or> byName d n \<noteq> None")
  case True
  then show ?thesis using assms by (auto simp: Insert_def)
next
  case False
  then have sh: "\<not> shutdownErr d" and bn: "byName d n = None" by simp_all
  have dist: "distinct (map fst (queue d))"
    and idx: "\<And>m e'. byName d m = Some e' \<longleftrightarrow> (\<exists>f. (e', f) \<in> set (queue d) \<and> name f = m)"
    and bound: "\<And>x. x \<in> set (queue d) \<Longrightarrow> fst x < nextElem d"
    using assms by (auto simp: store_ok_def)
  have q: "queue (Insert d n) = queue d @ [(nextElem d, \<lparr>name = n, inserted = clock d (ticks d)\<rparr>)]"
    and b: "byName (Insert d n) = (byName d)(n \<mapsto> nextElem d)"
    and ne: "nextElem (Insert d n) = Suc (nextElem d)"
    using sh bn by (simp_all add: Insert_def Let_def)
  have fresh: "nextElem d \<notin> fst ` set (queue d)" using bound by fastforce
  have non: "\<And>e f. (e, f) \<in> set (queue d) \<Longrightarrow> name f \<noteq> n"
    using idx bn by (metis option.distinct(1))
  have 1: "distinct (map fst (queue (Insert d n)))" using dist fresh by (simp add: q)
  have 2: "\<forall>x \<in> set (queue (Insert d n)). fst x < nextElem (Insert d n)"
    using bound by (auto simp: q ne less_Suc_eq)
  have 3: "byName (Insert d n) m = Some e' \<longleftrightarrow> (\<exists>f. (e', f) \<in> set (queue (Insert d n)) \<and> name f = m)"
    for m e'
  proof (cases "m = n")
    case True
    show ?thesis using non fresh by (auto simp: b q True image_iff)
  next
    case False
    show ?thesis using False by (auto simp: b q idx)
  qed
  show ?thesis unfolding store_ok_def using 1 2 3 by blast
qed

lemma store_ok_remove_elem:
  assumes ok: "store_ok d" and look: "byName d n = Some e"
    and q: "queue d' = list_Remove e (queue d)"
    and bn: "byName d' = (byName d)(n := None)"
    and ne: "nextElem d' = nextElem d"
  shows "store_ok d'"
proof -
  have dist: "distinct (map fst (queue d))"
    and idx: "\<And>n e'. byName d n = Some e' \<longleftrightarrow> (\<exists>f. (e', f) \<in> set (queue d) \<and> name f = n)"
    and bound: "\<And>x. x \<in> set (queue d) \<Longrightarrow> fst x < nextElem d"
    using ok by (auto simp: store_ok_def)
  from look obtain fl where mem: "(e, fl) \<in> set (queue d)" "name fl = n" using idx by blast
  have uniq: "\<And>f. (e, f) \<in> set (queue d) \<Longrightarrow> f = fl"
    using dist mem(1) by (meson eq_key_imp_eq_value)
  have 1: "distinct (map fst (queue d'))"
    using dist by (simp add: q list_Remove_def distinct_map_filter)
  have 2: "\<forall>x \<in> set (queue d'). fst x < nextElem d'"
    using bound by (simp add: q ne list_Remove_def)
  have 3: "byName d' m = Some e' \<longleftrightarrow> (\<exists>f. (e', f) \<in> set (queue d') \<and> name f = m)" for m e'
  proof (cases "m = n")
    case True
    have "\<not> (\<exists>f. (e', f) \<in> set (queue d') \<and> name f = m)"
    proof
      assume "\<exists>f. (e', f) \<in> set (queue d') \<and> name f = m"
      then obtain f where f: "(e', f) \<in> set (queue d)" "e' \<noteq> e" "name f = n"
        using True by (auto simp: q list_Remove_def)
      from f(1,3) have "byName d n = Some e'" using idx by blast
      then show False using f(2) look by simp
    qed
    then show ?thesis by (simp add: bn True)
  next
    case False
    have "(\<exists>f. (e', f) \<in> set (queue d') \<and> name f = m) \<longleftrightarrow> (\<exists>f. (e', f) \<in> set (queue d) \<and> name f = m)"
      using False uniq mem(2) by (auto simp: q list_Remove_def)
    then show ?thesis using False by (simp add: bn idx)
  qed
  show ?thesis unfolding store_ok_def using 1 2 3 by blast
qed

lemma store_ok_Remove:
  assumes "store_ok d"
  shows "store_ok (Remove d n)"
proof (cases "byName d n")
  case None
  then show ?thesis using assms by (simp add: Remove_def)
next
  case (Some e)
  show ?thesis
    by (rule store_ok_remove_elem[OF assms Some]) (simp_all add: Remove_def Some Let_def)
qed

lemma store_ok_scanEntry:
  assumes "store_ok d"
  shows "store_ok (snd (scanEntry de d))"
  using assms
  by (auto simp: scanEntry_def Let_def split_beta os_Remove_snd
      intro!: store_ok_Insert store_ok_fields[of d])

lemma store_ok_rangeDir:
  assumes "store_ok d"
  shows "store_ok (rangeDir des scanEntry d)"
  using assms
proof (induction des arbitrary: d)
  case Nil
  then show ?case by simp
next
  case (Cons de des)
  obtain b d1 where s: "scanEntry de d = (b, d1)" by (cases "scanEntry de d")
  have "store_ok d1" using store_ok_scanEntry[OF Cons.prems, of de] s by simp
  then show ?case using Cons.IH[of d1] s by (cases b) simp_all
qed

lemma store_ok_initScan:
  assumes "store_ok d" and "initScan d des = Inr d'"
  shows "store_ok d'"
proof -
  from assms(2) obtain d1 where
    a: "call_event d ''start init'' = Inr d1"
    and b: "call_event (rangeDir des scanEntry d1) ''end init'' = Inr d'"
    by (auto simp: initScan_def split: sum.splits)
  have "store_ok d1" by (rule store_ok_call_event[OF assms(1) a])
  then have "store_ok (rangeDir des scanEntry d1)" by (rule store_ok_rangeDir)
  then show ?thesis using b by (rule store_ok_call_event)
qed

lemma store_ok_waitAndDelete:
  assumes "store_ok d" and "waitAndDelete d wait w = Inr d'"
  shows "store_ok d'"
proof -
  from assms(2) obtain d1 d2 where
    a: "call_event d ''start waitAndDelete'' = Inr d1"
    and m: "(case w of ShutdownDone \<Rightarrow> Inr d1 | EmptySignal \<Rightarrow> Inr (d1\<lparr>emptySend := False\<rparr>)
              | TimerFired now \<Rightarrow> sweep d1 now) = Inr d2"
    and b: "call_event d2 ''end waitAndDelete'' = Inr d'"
    by (auto simp: waitAndDelete_def split: sum.splits)
  have ok1: "store_ok d1" by (rule store_ok_call_event[OF assms(1) a])
  have "store_ok d2"
  proof (cases w)
    case ShutdownDone
    then show ?thesis using m ok1 by simp
  next
    case EmptySignal
    then show ?thesis using m ok1 by (auto intro: store_ok_fields)
  next
    case (TimerFired now)
    then show ?thesis using m ok1 store_ok_sweep by simp
  qed
  then show ?thesis using b by (rule store_ok_call_event)
qed

lemma store_ok_exec:
  assumes "store_ok d" and "exec x d = Inr d'"
  shows "store_ok d'"
proof (cases x)
  case (OpInsert n)
  then show ?thesis using assms store_ok_Insert by auto
next
  case (OpRemove n)
  then show ?thesis using assms store_ok_Remove by auto
next
  case OpShutdown
  then show ?thesis using assms store_ok_Shutdown by auto
next
  case (OpInitScan des)
  have "store_ok (d\<lparr>groupTasks := remove1 InitScan (groupTasks d)\<rparr>)"
    using assms(1) by (auto intro: store_ok_fields)
  then show ?thesis using assms OpInitScan store_ok_initScan by (auto split: if_splits)
next
  case (OpWaitAndDelete wait w)
  have "store_ok (d\<lparr>groupTasks := remove1 (WaitAndDelete wait) (groupTasks d)\<rparr>)"
    using assms(1) by (auto intro: store_ok_fields)
  then show ?thesis using assms OpWaitAndDelete store_ok_waitAndDelete by (auto split: if_splits)
next
  case (OpDisk p v)
  then show ?thesis using assms by (auto intro: store_ok_fields)
qed

lemma store_ok_run:
  assumes "store_ok d" and "run xs d = Inr d'"
  shows "store_ok d'"
  using assms
proof (induction xs arbitrary: d)
  case Nil
  then show ?case by simp
next
  case (Cons x xs)
  then show ?case by (auto split: sum.splits dest: store_ok_exec)
qed

lemma store_ok_names_distinct:
  assumes "store_ok d"
  shows "distinct (names (queue d))"
proof -
  have dist: "distinct (map fst (queue d))"
    and idx: "\<And>n e'. byName d n = Some e' \<longleftrightarrow> (\<exists>f. (e', f) \<in> set (queue d) \<and> name f = n)"
    using assms by (auto simp: store_ok_def)
  have "inj_on (\<lambda>x. name (snd x)) (set (queue d))"
  proof (rule inj_onI)
    fix x y assume x: "x \<in> set (queue d)" and y: "y \<in> set (queue d)"
      and eq: "name (snd x) = name (snd y)"
    have "byName d (name (snd x)) = Some (fst x)" using idx x by (metis prod.collapse)
    moreover have "byName d (name (snd x)) = Some (fst y)" using idx y eq by (metis prod.collapse)
    ultimately have "fst x = fst y" by simp
    then show "x = y" using dist x y by (metis eq_key_imp_eq_value prod.collapse)
  qed
  moreover have "distinct (queue d)" using dist by (simp add: distinct_map)
  ultimately show ?thesis by (simp add: names_def distinct_map)
qed

lemma filepath_Join_inj: "filepath_Join dr a = filepath_Join dr b \<Longrightarrow> a = b"
  by (auto simp: filepath_Join_def split: if_splits)

lemma TrimSuffix_neq:
  assumes "HasSuffix s suf" and "suf \<noteq> []"
  shows "TrimSuffix s suf \<noteq> s"
proof -
  have "length (TrimSuffix s suf) = length s - length suf"
    using assms by (simp add: TrimSuffix_def HasSuffix_def)
  moreover have "0 < length suf" "length suf \<le> length s" using assms by (simp_all add: HasSuffix_def)
  ultimately have "length (TrimSuffix s suf) < length s" by linarith
  then show ?thesis by auto
qed

lemma companion_neq:
  assumes "HasSuffix s deletedSuffix"
  shows "filepath_Join dr (TrimSuffix s deletedSuffix) \<noteq> filepath_Join dr s"
  using TrimSuffix_neq[OF assms] filepath_Join_inj by (auto simp: deletedSuffix_def)

lemma targets_eq:
  "targets dr f =
     (if HasSuffix (name f) deletedSuffix
      then [filepath_Join dr (TrimSuffix (name f) deletedSuffix), filepath_Join dr (name f)]
      else [filepath_Join dr (name f)])"
  by (simp add: targets_def CutSuffix_eq)

lemma deleteExpired_flag:
  assumes "deleteExpired e f d = Inr (d', b)"
  shows "b = remove_fails d f"
  using assms companion_neq[of "name f" "dir d"]
  by (auto simp: deleteExpired_def Let_def CutSuffix_eq os_Remove_snd os_Remove_fst call_event_def
      split_beta os_IsNotExist_def remove_fails_def targets_eq
      split: if_splits option.splits sum.splits fentry.splits)

lemma deleteExpired_undeletable:
  assumes "deleteExpired e f d = Inr (d', b)"
  shows "(disk d' p = Some Undeletable) = (disk d p = Some Undeletable)"
  using assms
  by (auto simp: deleteExpired_def Let_def CutSuffix_eq os_Remove_snd os_Remove_fst call_event_def
      split_beta os_IsNotExist_def 
      split: if_splits option.splits sum.splits fentry.splits)

lemma remove_fails_cong:
  assumes "dir d = dir d0" and "\<forall>p. (disk d p = Some Undeletable) = (disk d0 p = Some Undeletable)"
  shows "remove_fails d f = remove_fails d0 f"
  using assms by (simp add: remove_fails_def)

lemma sweep_loop_exact:
  assumes "sweep_loop now rest d failed = Inr (d', failed')"
    and "queue d = K @ rest" and "distinct (map fst (K @ rest))"
    and "dir d = dir d0"
    and "\<forall>p. (disk d p = Some Undeletable) = (disk d0 p = Some Undeletable)"
  shows "queue d' = K @ filter (\<lambda>x. remove_fails d0 (snd x)) (takeWhile (expired now) rest)
                      @ dropWhile (expired now) rest
       \<and> failed' = failed @ map fst (filter (\<lambda>x. remove_fails d0 (snd x)) (takeWhile (expired now) rest))
       \<and> logs d' = logs d @ replicate (length (filter (\<lambda>x. remove_fails d0 (snd x))
                                   (takeWhile (expired now) rest))) (CouldNotDelete ErrOther)"
  using assms
proof (induction rest arbitrary: d failed K)
  case Nil
  then show ?case by simp
next
  case (Cons x rest)
  obtain e fl where x: "x = (e, fl)" by (cases x)
  show ?case
  proof (cases "expired now x")
    case False
    then show ?thesis using Cons.prems by (simp add: x expired_def)
  next
    case True
    then have ex: "\<not> time_Sub now (inserted fl) < deleteDelay" by (simp add: x expired_def)
    from Cons.prems(1) ex obtain d1 b where
      step: "deleteExpired e fl d = Inr (d1, b)"
      and rest: "sweep_loop now rest d1 (if b then failed @ [e] else failed) = Inr (d', failed')"
      by (auto simp: x split: sum.splits bool.splits)
    have b: "b = remove_fails d0 (snd x)"
      using deleteExpired_flag[OF step] remove_fails_cong[OF Cons.prems(4,5)] by (simp add: x)
    have dir1: "dir d1 = dir d0" using deleteExpired_frame(6)[OF step] Cons.prems(4) by simp
    have und1: "\<forall>p. (disk d1 p = Some Undeletable) = (disk d0 p = Some Undeletable)"
      using deleteExpired_undeletable[OF step] Cons.prems(5) by simp
    have lg: "logs d1 = logs d @ (if b then [CouldNotDelete ErrOther] else [])"
      by (rule deleteExpired_logs[OF step])
    show ?thesis
    proof (cases b)
      case True
      have q1: "queue d1 = (K @ [x]) @ rest"
        using deleteExpired_frame(1)[OF step] True Cons.prems(2) by simp
      have "distinct (map fst ((K @ [x]) @ rest))" using Cons.prems(3) by simp
      from Cons.IH[OF _ q1 this dir1 und1, of "failed @ [e]"] rest True
      show ?thesis using \<open>expired now x\<close> b lg by (simp add: x replicate_append_same)
    next
      case False
      have q1: "queue d1 = K @ rest"
        using deleteExpired_frame(1)[OF step] False Cons.prems(2,3) list_Remove_mid[of K e fl rest]
        by (simp add: x)
      have "distinct (map fst (K @ rest))" using Cons.prems(3) by simp
      from Cons.IH[OF _ q1 this dir1 und1, of failed] rest False
      show ?thesis using \<open>expired now x\<close> b lg by (simp add: x)
    qed
  qed
qed

lemma respawn_frame:
  "queue (respawn now d) = queue d" "byName (respawn now d) = byName d"
  "logs (respawn now d) = logs d" "removes (respawn now d) = removes d"
  "disk (respawn now d) = disk d" "events (respawn now d) = events d"
  "dir (respawn now d) = dir d" "shutdownErr (respawn now d) = shutdownErr d"
  "event (respawn now d) = event d" "nextElem (respawn now d) = nextElem d"
  by (simp_all add: respawn_def Let_def split: list.split prod.split)

text \<open>The queue, the log and the calls of os.Remove of a whole sweep.\<close>

lemma sweep_exact:
  assumes "sweep d now = Inr d'" and "distinct (map fst (queue d))"
  shows "queue d' = dropWhile (expired now) (queue d)
            @ map (restamp now) (filter (\<lambda>x. remove_fails d (snd x)) (takeWhile (expired now) (queue d)))"
    and "logs d' = logs d @ replicate (length (filter (\<lambda>x. remove_fails d (snd x))
                                   (takeWhile (expired now) (queue d)))) (CouldNotDelete ErrOther)"
proof -
  let ?F = "filter (\<lambda>x. remove_fails d (snd x)) (takeWhile (expired now) (queue d))"
  from assms(1) obtain d1 failed where
    loop: "sweep_loop now (queue d) d [] = Inr (d1, failed)"
    and d': "d' = respawn now (fold (requeue now) failed d1)"
    by (auto simp: sweep_def split: sum.splits)
  from sweep_loop_exact[OF loop, of "[]" d] assms(2) have
    K: "queue d1 = ?F @ dropWhile (expired now) (queue d)" "failed = map fst ?F"
      "logs d1 = logs d @ replicate (length ?F) (CouldNotDelete ErrOther)" by auto
  have "distinct (map fst (takeWhile (expired now) (queue d) @ dropWhile (expired now) (queue d)))"
    using assms(2) by simp
  then have "distinct (map fst (?F @ dropWhile (expired now) (queue d)))"
    by (rule subseq_front_distinct) simp
  from fold_requeue_queue[OF this K(1), of now]
  show "queue d' = dropWhile (expired now) (queue d) @ map (restamp now) ?F"
    by (simp add: d' respawn_frame K(2))
  show "logs d' = logs d @ replicate (length ?F) (CouldNotDelete ErrOther)"
    by (simp add: d' respawn_frame fold_requeue_frame K(3))
qed

lemma sweep_removes:
  assumes "sweep d now = Inr d'"
  shows "\<exists>chunks. removes d' = removes d @ concat chunks
            \<and> list_all2 (\<lambda>x c. c \<noteq> [] \<and> prefix c (targets (dir d) (snd x)))
                 (takeWhile (expired now) (queue d)) chunks"
proof -
  from assms(1) obtain d1 failed where
    loop: "sweep_loop now (queue d) d [] = Inr (d1, failed)"
    and d': "d' = respawn now (fold (requeue now) failed d1)"
    by (auto simp: sweep_def split: sum.splits)
  have "removes d' = removes d1" by (simp add: d' respawn_frame fold_requeue_frame)
  then show ?thesis using sweep_loop_removes[OF loop] by simp
qed

lemma sweep_frame:
  assumes "sweep d now = Inr d'"
  shows "dir d' = dir d \<and> event d' = event d \<and> shutdownErr d' = shutdownErr d
       \<and> nextElem d' = nextElem d \<and> emptySend d' = emptySend d \<and> clock d' = clock d
       \<and> ticks d' = ticks d"
proof -
  from assms(1) obtain d1 failed where
    loop: "sweep_loop now (queue d) d [] = Inr (d1, failed)"
    and d': "d' = respawn now (fold (requeue now) failed d1)"
    by (auto simp: sweep_def split: sum.splits)
  show ?thesis using sweep_loop_frame[OF loop]
    by (simp add: d' respawn_frame fold_requeue_frame respawn_def Let_def split: list.split prod.split)
qed

lemma sweep_total:
  assumes "event d = Some h"
  shows "\<exists>d'. sweep d now = Inr d'"
  using sweep_loop_total[OF assms, of now "queue d" "[]"] by (auto simp: sweep_def)

lemma expired_iff: "expired now x \<longleftrightarrow> deleteDelay \<le> now - inserted (snd x)"
  by (auto simp: expired_def time_Sub_def maxDuration_def minDuration_def deleteDelay_def)

lemma waitAndDelete_TimerFired:
  assumes "waitAndDelete d wait (TimerFired now) = Inr d'"
  obtains h d2 where "event d = Some h"
    and "sweep (d\<lparr>events := h ''start waitAndDelete'' (events d)\<rparr>) now = Inr d2"
    and "d' = d2\<lparr>events := h ''end waitAndDelete'' (events d2)\<rparr>"
proof -
  from assms obtain h d2 h2 where h: "event d = Some h"
    and sw: "sweep (d\<lparr>events := h ''start waitAndDelete'' (events d)\<rparr>) now = Inr d2"
    and h2: "event d2 = Some h2"
    and d': "d' = d2\<lparr>events := h2 ''end waitAndDelete'' (events d2)\<rparr>"
    by (auto simp: waitAndDelete_def call_event_def split: option.splits sum.splits)
  have "h2 = h" using sweep_frame[OF sw] h h2 by simp
  then show ?thesis using that h sw d' by simp
qed


lemma waitAndDelete_total:
  assumes "event d = Some h"
  shows "\<exists>d'. waitAndDelete d wait w = Inr d'"
proof -
  let ?d1 = "d\<lparr>events := h ''start waitAndDelete'' (events d)\<rparr>"
  have e1: "event ?d1 = Some h" using assms by simp
  from sweep_total[OF e1] have sw: "\<exists>d2. sweep ?d1 now = Inr d2" for now by blast
  have "\<exists>d2. (case w of ShutdownDone \<Rightarrow> Inr ?d1 | EmptySignal \<Rightarrow> Inr (?d1\<lparr>emptySend := False\<rparr>)
              | TimerFired now \<Rightarrow> sweep ?d1 now) = Inr d2 \<and> event d2 = Some h"
  proof (cases w)
    case (TimerFired now)
    from sw[of now] obtain d2 where "sweep ?d1 now = Inr d2" by blast
    then show ?thesis using sweep_frame[of ?d1 now d2] TimerFired assms by auto
  qed (simp_all add: assms)
  then show ?thesis using assms
    by (auto simp: waitAndDelete_def call_event_def)
qed

lemmas ev_defs = ex_store_def rec_hook_def waitAndDelete_def call_event_def sweep_def
  deleteExpired_def CutSuffix_def HasSuffix_def deletedSuffix_def os_Remove_def time_Sub_def
  deleteDelay_def maxDuration_def minDuration_def os_IsNotExist_def filepath_Join_def
  requeue_def respawn_def list_MoveToBack_def set_inserted_def list_Remove_def int64_def Let_def

lemma sweep_groupTasks:
  assumes "sweep d now = Inr d'"
  shows "groupTasks d' =
     (case queue d' of
        [] \<Rightarrow> groupTasks d
      | x # _ \<Rightarrow>
          if shutdownErr d then groupTasks d
          else groupTasks d @ [WaitAndDelete (int64 (deleteDelay - time_Sub now (inserted (snd x))))])"
proof -
  from assms(1) obtain d1 failed where
    loop: "sweep_loop now (queue d) d [] = Inr (d1, failed)"
    and d': "d' = respawn now (fold (requeue now) failed d1)"
    by (auto simp: sweep_def split: sum.splits)
  have "groupTasks (fold (requeue now) failed d1) = groupTasks d"
    "shutdownErr (fold (requeue now) failed d1) = shutdownErr d"
    using sweep_loop_frame[OF loop] by (simp_all add: fold_requeue_frame)
  then show ?thesis
    by (auto simp: d' respawn_def Let_def split: list.split prod.split)
qed

lemma remove_fails_events [simp]: "remove_fails (d\<lparr>events := v\<rparr>) f = remove_fails d f"
  by (simp add: remove_fails_def)

lemma time_Sub_self [simp]: "time_Sub now now = 0"
  by (simp add: time_Sub_def maxDuration_def minDuration_def)

lemma int64_deleteDelay [simp]: "int64 deleteDelay = deleteDelay"
  by (simp add: int64_def deleteDelay_def)

lemma store_ok_map_of:
  assumes "byName d = map_of (map (\<lambda>x. (name (snd x), fst x)) (queue d))"
    and "distinct (map fst (queue d))" and "distinct (names (queue d))"
    and "\<forall>x \<in> set (queue d). fst x < nextElem d"
  shows "store_ok d"
proof -
  have dn: "distinct (map fst (map (\<lambda>x. (name (snd x), fst x)) (queue d)))"
    using assms(3) by (simp add: names_def comp_def)
  have "byName d n = Some e \<longleftrightarrow> (\<exists>f. (e, f) \<in> set (queue d) \<and> name f = n)" for n e
    unfolding assms(1) map_of_eq_Some_iff[OF dn] by force
  then show ?thesis using assms(2,4) by (simp add: store_ok_def)
qed

lemma store_ok_ex_store: "store_ok ex_store"
  by (rule store_ok_map_of) (simp_all add: ex_store_def names_def)

lemma deleteExpired_success:
  assumes "event d = Some h"
    and "\<forall>p \<in> set (targets (dir d) fl). disk d p = None \<or> disk d p = Some Deletable"
  shows "deleteExpired e fl d =
     Inr (d\<lparr>queue := list_Remove e (queue d),
            byName := (byName d)(name fl := None),
            disk := (\<lambda>p. if p \<in> set (targets (dir d) fl) then None else disk d p),
            events := h (''deleted '' @ name fl) (events d),
            removes := removes d @ targets (dir d) fl\<rparr>, False)"
proof -
  have disk_eq: "(\<lambda>p. if p \<in> set (targets (dir d) fl) then None else disk d p)
      = (if HasSuffix (name fl) deletedSuffix
         then (disk d)(filepath_Join (dir d) (TrimSuffix (name fl) deletedSuffix) := None,
                       filepath_Join (dir d) (name fl) := None)
         else (disk d)(filepath_Join (dir d) (name fl) := None))"
    by (auto simp: targets_eq fun_eq_iff)
  show ?thesis
  proof (cases "HasSuffix (name fl) deletedSuffix")
    case True
    with assms(2) have
      "disk d (filepath_Join (dir d) (TrimSuffix (name fl) deletedSuffix)) \<noteq> Some Undeletable"
      "disk d (filepath_Join (dir d) (name fl)) \<noteq> Some Undeletable"
      by (auto simp: targets_eq)
    then show ?thesis
      unfolding disk_eq using True assms(1) companion_neq[OF True, of "dir d"]
      by (auto simp: deleteExpired_def Let_def CutSuffix_eq os_Remove_def call_event_def
          os_IsNotExist_def targets_eq fun_upd_idem
          split: option.splits fentry.splits)
  next
    case False
    with assms(2) have "disk d (filepath_Join (dir d) (name fl)) \<noteq> Some Undeletable"
      by (auto simp: targets_eq)
    then show ?thesis
      unfolding disk_eq using False assms(1)
      by (auto simp: deleteExpired_def Let_def CutSuffix_eq os_Remove_def call_event_def
          os_IsNotExist_def targets_eq fun_upd_idem
          split: option.splits fentry.splits)
  qed
qed

lemma int64_id:
  assumes "minDuration \<le> x" and "x \<le> maxDuration"
  shows "int64 x = x"
  using assms by (simp add: int64_def minDuration_def maxDuration_def)

lemma sweep_front_young:
  assumes "sweep d now = Inr d'" and "distinct (map fst (queue d))" and "queue d' = x # xs"
  shows "time_Sub now (inserted (snd x)) < deleteDelay"
proof -
  let ?F = "filter (\<lambda>x. remove_fails d (snd x)) (takeWhile (expired now) (queue d))"
  have q: "x # xs = dropWhile (expired now) (queue d) @ map (restamp now) ?F"
    using sweep_exact(1)[OF assms(1,2)] assms(3) by simp
  show ?thesis
  proof (cases "dropWhile (expired now) (queue d)")
    case Nil
    with q obtain y where "x = restamp now y" by (cases ?F) auto
    then show ?thesis by (simp add: restamp_def deleteDelay_def)
  next
    case (Cons y ys)
    then have "\<not> expired now y" by (metis hd_dropWhile list.distinct(1) list.sel(1))
    moreover have "x = y" using q Cons by simp
    ultimately show ?thesis by (simp add: expired_def)
  qed
qed

lemma Insert_frame:
  "event (Insert d n) = event d" "dir (Insert d n) = dir d" "disk (Insert d n) = disk d"
  "removes (Insert d n) = removes d" "events (Insert d n) = events d"
  "logs (Insert d n) = logs d" "shutdownErr (Insert d n) = shutdownErr d"
  by (simp_all add: Insert_def Let_def)

lemma Remove_frame:
  "event (Remove d n) = event d" "dir (Remove d n) = dir d" "disk (Remove d n) = disk d"
  "removes (Remove d n) = removes d" "events (Remove d n) = events d"
  "logs (Remove d n) = logs d" "shutdownErr (Remove d n) = shutdownErr d"
  by (simp_all add: Remove_def Let_def split: option.split)

lemma scanEntry_frame:
  "event (snd (scanEntry de d)) = event d" "dir (snd (scanEntry de d)) = dir d"
  "shutdownErr (snd (scanEntry de d)) = shutdownErr d"
  by (simp_all add: scanEntry_def Let_def split_beta os_Remove_snd Insert_frame)

lemma rangeDir_scanEntry_frame:
  "event (rangeDir des scanEntry d) = event d \<and> dir (rangeDir des scanEntry d) = dir d
   \<and> shutdownErr (rangeDir des scanEntry d) = shutdownErr d"
proof (induction des arbitrary: d)
  case Nil
  show ?case by simp
next
  case (Cons de des)
  obtain b d1 where s: "scanEntry de d = (b, d1)" by (cases "scanEntry de d")
  have "event d1 = event d" "dir d1 = dir d" "shutdownErr d1 = shutdownErr d"
    using scanEntry_frame[of de d] s by simp_all
  then show ?case using Cons.IH[of d1] s by (cases b) simp_all
qed

lemma initScan_total:
  assumes "event d = Some h"
  shows "\<exists>d'. initScan d des = Inr d'"
  using assms rangeDir_scanEntry_frame[of des "d\<lparr>events := h ''start init'' (events d)\<rparr>"]
  by (simp add: initScan_def call_event_def)

lemma distinct_count_list_1:
  assumes "distinct xs" and "x \<in> set xs"
  shows "count_list xs x = 1"
  using assms by (induction xs) auto

lemma Insert_twice: "Insert (Insert d n) n = Insert d n"
  by (simp add: Insert_def Let_def)

lemma Insert_present:
  assumes "store_ok d" and "\<not> shutdownErr d"
  shows "n \<in> set (names (queue (Insert d n)))"
proof (cases "byName d n")
  case None
  then show ?thesis using assms(2) by (simp add: Insert_def Let_def names_def)
next
  case (Some e)
  then obtain f where "(e, f) \<in> set (queue d)" "name f = n"
    using assms(1) unfolding store_ok_def by blast
  then have "n \<in> set (names (queue d))" by (force simp: names_def)
  then show ?thesis using Some by (simp add: Insert_def)
qed



























section \<open>Insert\<close>

text \<open>
  C1. \<open>Insert\<close>, called when shutdown has not begun and the name is not in the index,
  appends a new record with the current reading of the clock at the back of the queue,
  under a fresh element that the index now gives for the name. It starts a
  \<open>waitAndDelete\<close> goroutine (with \<open>deleteDelay\<close>) exactly when the queue goes from
  no record to one record. When shutdown has begun, \<open>Insert\<close> changes nothing: no record
  and no goroutine.
\<close>

theorem Insert_appends_and_spawns:
  "(\<not> shutdownErr d \<and> byName d baseName = None \<longrightarrow>
      queue (Insert d baseName) =
        queue d @ [(nextElem d, \<lparr>name = baseName, inserted = clock d (ticks d)\<rparr>)]
    \<and> byName (Insert d baseName) baseName = Some (nextElem d)
    \<and> (\<forall>m. m \<noteq> baseName \<longrightarrow> byName (Insert d baseName) m = byName d m)
    \<and> groupTasks (Insert d baseName) =
        (if length (queue d) = 0 \<and> length (queue (Insert d baseName)) = 1
         then groupTasks d @ [WaitAndDelete deleteDelay] else groupTasks d))
   \<and> (shutdownErr d \<longrightarrow> Insert d baseName = d)"
  by (simp add: Insert_def Let_def)

theorem Insert_appends_and_spawns_witness:
  "\<not> shutdownErr (Init (\<lambda>n. 5) None ''d'' (\<lambda>p. None))
   \<and> byName (Init (\<lambda>n. 5) None ''d'' (\<lambda>p. None)) ''a'' = None
   \<and> queue (Insert (Init (\<lambda>n. 5) None ''d'' (\<lambda>p. None)) ''a'') = [(0, \<lparr>name = ''a'', inserted = 5\<rparr>)]
   \<and> groupTasks (Insert (Init (\<lambda>n. 5) None ''d'' (\<lambda>p. None)) ''a'') = [InitScan, WaitAndDelete deleteDelay]
   \<and> shutdownErr (Shutdown (Init (\<lambda>n. 5) None ''d'' (\<lambda>p. None)))
   \<and> Insert (Shutdown (Init (\<lambda>n. 5) None ''d'' (\<lambda>p. None))) ''a'' = Shutdown (Init (\<lambda>n. 5) None ''d'' (\<lambda>p. None))"
  using Insert_appends_and_spawns [of "Init (\<lambda>n. 5) None ''d'' (\<lambda>p. None)" "''a''"]
        Insert_appends_and_spawns [of "Shutdown (Init (\<lambda>n. 5) None ''d'' (\<lambda>p. None))" "''a''"]
  by (simp add: Init_def Shutdown_def)

section \<open>The grace period\<close>



section \<open>Failed deletions\<close>

text \<open>
  C3. In a sweep at time \<open>now\<close>, the records whose attempt fails with an error other
  than a missing file (\<open>remove_fails\<close>: a path of the record cannot be deleted) are the
  list \<open>F\<close>. They are not removed: after the walk the queue is the records the walk did
  not reach, followed by the records of \<open>F\<close> in their order with \<open>inserted\<close> set to
  \<open>now\<close>, and the index still gives their elements; one line is logged for each. Each
  expired record is given to \<open>os.Remove\<close> once in the pass. A failed record passes the
  test of a later walk at \<open>now2\<close> exactly when \<open>now2\<close> is at least \<open>deleteDelay\<close>
  after \<open>now\<close>, and when only failed records remain the next \<open>waitAndDelete\<close> is
  started with \<open>deleteDelay\<close>.
\<close>

theorem sweep_retry:
  assumes "waitAndDelete d wait (TimerFired now) = Inr d'" and "store_ok d"
  shows "let F = filter (\<lambda>x. remove_fails d (snd x)) (takeWhile (expired now) (queue d)) in
       queue d' = dropWhile (expired now) (queue d) @ map (restamp now) F
     \<and> (\<forall>x \<in> set F. byName d' (name (snd x)) = Some (fst x))
     \<and> logs d' = logs d @ replicate (length F) (CouldNotDelete ErrOther)
     \<and> (\<forall>x \<in> set F. \<forall>now2. expired now2 (restamp now x) \<longleftrightarrow> deleteDelay \<le> now2 - now)
     \<and> (F \<noteq> [] \<and> dropWhile (expired now) (queue d) = [] \<and> \<not> shutdownErr d
           \<longrightarrow> groupTasks d' = groupTasks d @ [WaitAndDelete deleteDelay])
     \<and> (\<exists>chunks. removes d' = removes d @ concat chunks
            \<and> list_all2 (\<lambda>x c. c \<noteq> [] \<and> prefix c (targets (dir d) (snd x)))
                 (takeWhile (expired now) (queue d)) chunks)"
proof -
  define F where "F = filter (\<lambda>x. remove_fails d (snd x)) (takeWhile (expired now) (queue d))"
  from assms(1) obtain h d2 where
    sw: "sweep (d\<lparr>events := h ''start waitAndDelete'' (events d)\<rparr>) now = Inr d2"
    and d': "d' = d2\<lparr>events := h ''end waitAndDelete'' (events d2)\<rparr>"
    by (auto elim: waitAndDelete_TimerFired)
  let ?d1 = "d\<lparr>events := h ''start waitAndDelete'' (events d)\<rparr>"
  have ok1: "store_ok ?d1" using assms(2) by (auto intro: store_ok_fields)
  have dist: "distinct (map fst (queue ?d1))" using assms(2) by (simp add: store_ok_def)
  have q: "queue d' = dropWhile (expired now) (queue d) @ map (restamp now) F"
    using sweep_exact(1)[OF sw dist] by (simp add: d' F_def)
  have lg: "logs d' = logs d @ replicate (length F) (CouldNotDelete ErrOther)"
    using sweep_exact(2)[OF sw dist] by (simp add: d' F_def)
  have ok': "store_ok d'"
    using store_ok_sweep[OF sw ok1] by (auto simp: d' intro: store_ok_fields)
  have idx: "byName d' (name (snd x)) = Some (fst x)" if "x \<in> set F" for x
  proof -
    have "(fst x, snd (restamp now x)) \<in> set (queue d')"
      using that by (auto simp: q restamp_def image_iff)
    moreover have "name (snd (restamp now x)) = name (snd x)" by (simp add: restamp_def)
    ultimately show ?thesis using ok' unfolding store_ok_def by blast
  qed
  have again: "expired now2 (restamp now x) \<longleftrightarrow> deleteDelay \<le> now2 - now" for now2 x
    by (simp add: expired_iff restamp_def)
  have sp: "groupTasks d' = groupTasks d @ [WaitAndDelete deleteDelay]"
    if "F \<noteq> []" "dropWhile (expired now) (queue d) = []" "\<not> shutdownErr d"
  proof -
    from that(1) obtain x xs where F: "F = x # xs" by (cases F) auto
    have "queue d2 = restamp now x # map (restamp now) xs"
      using q that(2) F by (simp add: d')
    then show ?thesis using sweep_groupTasks[OF sw] that(3) by (simp add: d' restamp_def)
  qed
  have rm: "\<exists>chunks. removes d' = removes d @ concat chunks
            \<and> list_all2 (\<lambda>x c. c \<noteq> [] \<and> prefix c (targets (dir d) (snd x)))
                 (takeWhile (expired now) (queue d)) chunks"
    using sweep_removes[OF sw] by (simp add: d')
  show ?thesis
    unfolding Let_def F_def[symmetric] using q idx lg again sp rm by blast
qed

theorem sweep_retry_witness:
  "\<exists>d'. waitAndDelete ex_store deleteDelay (TimerFired 3600000000010) = Inr d'
     \<and> store_ok ex_store
     \<and> queue d' = [(3, \<lparr>name = ''b'', inserted = 3600000000010\<rparr>)]
     \<and> byName d' ''b'' = Some 3
     \<and> logs d' = [CouldNotDelete ErrOther]
     \<and> expired 7200000000010 (3, \<lparr>name = ''b'', inserted = 3600000000010\<rparr>)
     \<and> \<not> expired 7200000000009 (3, \<lparr>name = ''b'', inserted = 3600000000010\<rparr>)
     \<and> groupTasks d' = [WaitAndDelete deleteDelay, WaitAndDelete deleteDelay]"
proof -
  have "\<exists>d'. waitAndDelete ex_store deleteDelay (TimerFired 3600000000010) = Inr d'"
    by (simp add: ev_defs)
  then obtain d' where r: "waitAndDelete ex_store deleteDelay (TimerFired 3600000000010) = Inr d'"
    by blast
  have ok: "store_ok ex_store" by (rule store_ok_ex_store)
  have tw: "takeWhile (expired 3600000000010) (queue ex_store) = queue ex_store"
    and dw: "dropWhile (expired 3600000000010) (queue ex_store) = []"
    by (simp_all add: ex_store_def expired_def time_Sub_def deleteDelay_def maxDuration_def
        minDuration_def)
  have F: "filter (\<lambda>x. remove_fails ex_store (snd x)) (queue ex_store)
      = [(3, \<lparr>name = ''b'', inserted = 0\<rparr>)]"
    by (simp add: ex_store_def remove_fails_def targets_eq HasSuffix_def deletedSuffix_def
        filepath_Join_def TrimSuffix_def)
  have misc: "logs ex_store = []" "groupTasks ex_store = [WaitAndDelete deleteDelay]"
    "\<not> shutdownErr ex_store"
    by (simp_all add: ex_store_def)
  from sweep_retry[OF r ok] show ?thesis
    unfolding Let_def tw dw F using r ok misc
    by (simp add: restamp_def deleteDelay_def)
qed

section \<open>One record for a name\<close>

text \<open>
  C5. In every state that the operations reach from \<open>Init\<close> (calls of \<open>Insert\<close>,
  \<open>Remove\<close> and \<open>Shutdown\<close>, the cold-start scan, runs of \<open>waitAndDelete\<close> with its
  sweep, changes of the disk), the names of the records of the queue are distinct. This
  follows from the agreement of the queue with its index (\<open>store_ok\<close>), which gives
  distinct names and which \<open>Insert\<close>, \<open>Remove\<close>, the sweep and the scan each preserve.
  An \<open>Insert\<close> of a name that the index has changes nothing, a second \<open>Insert\<close> of the
  same name right after the first changes nothing, and after the two (shutdown not begun)
  the queue has exactly one record of that name.
\<close>

theorem names_unique:
  "(run xs (Init clk ev dr dsk) = Inr d \<longrightarrow>
       distinct (names (queue d))
     \<and> (\<not> shutdownErr d \<longrightarrow> count_list (names (queue (Insert (Insert d n) n))) n = 1))
   \<and> (store_ok d1 \<longrightarrow>
       distinct (names (queue d1))
     \<and> store_ok (Insert d1 n) \<and> store_ok (Remove d1 n)
     \<and> (\<forall>now d2. sweep d1 now = Inr d2 \<longrightarrow> store_ok d2)
     \<and> store_ok (rangeDir des scanEntry d1))
   \<and> (byName d1 n \<noteq> None \<longrightarrow> Insert d1 n = d1)
   \<and> Insert (Insert d1 n) n = Insert d1 n"
proof -
  have A: "distinct (names (queue d))
     \<and> (\<not> shutdownErr d \<longrightarrow> count_list (names (queue (Insert (Insert d n) n))) n = 1)"
    if r: "run xs (Init clk ev dr dsk) = Inr d"
  proof -
    have ok: "store_ok d" using store_ok_run[OF store_ok_Init r] .
    have "count_list (names (queue (Insert (Insert d n) n))) n = 1" if "\<not> shutdownErr d"
      unfolding Insert_twice
      using store_ok_names_distinct[OF store_ok_Insert[OF ok, of n]] Insert_present[OF ok that, of n]
      by (rule distinct_count_list_1)
    then show ?thesis using store_ok_names_distinct[OF ok] by blast
  qed
  have B: "distinct (names (queue d1))
     \<and> store_ok (Insert d1 n) \<and> store_ok (Remove d1 n)
     \<and> (\<forall>now d2. sweep d1 now = Inr d2 \<longrightarrow> store_ok d2)
     \<and> store_ok (rangeDir des scanEntry d1)" if ok: "store_ok d1"
    using store_ok_names_distinct[OF ok] store_ok_Insert[OF ok] store_ok_Remove[OF ok]
      store_ok_sweep[OF _ ok] store_ok_rangeDir[OF ok] by blast
  have C: "Insert d1 n = d1" if "byName d1 n \<noteq> None"
    using that by (simp add: Insert_def)
  show ?thesis using A B C Insert_twice[of d1 n] by blast
qed

theorem names_unique_witness:
  "\<exists>d. run [OpInsert ''a'', OpInsert ''b'', OpInsert ''a'', OpRemove ''c'']
           (Init (clock ex_store) (Some rec_hook) ''d'' (disk ex_store)) = Inr d
     \<and> names (queue d) = [''a'', ''b'']
     \<and> distinct (names (queue d))
     \<and> \<not> shutdownErr d
     \<and> count_list (names (queue (Insert (Insert d ''b'') ''b''))) ''b'' = 1
     \<and> store_ok ex_store
     \<and> byName ex_store ''b'' \<noteq> None
     \<and> Insert ex_store ''b'' = ex_store
     \<and> store_ok (Remove ex_store ''b'')
     \<and> (\<exists>d2. sweep ex_store 3600000000005 = Inr d2 \<and> store_ok d2)"
proof -
  have "\<exists>d. run [OpInsert ''a'', OpInsert ''b'', OpInsert ''a'', OpRemove ''c'']
           (Init (clock ex_store) (Some rec_hook) ''d'' (disk ex_store)) = Inr d
     \<and> names (queue d) = [''a'', ''b''] \<and> \<not> shutdownErr d"
    by (simp add: Init_def Insert_def Remove_def names_def Let_def)
  then obtain d where r: "run [OpInsert ''a'', OpInsert ''b'', OpInsert ''a'', OpRemove ''c'']
           (Init (clock ex_store) (Some rec_hook) ''d'' (disk ex_store)) = Inr d"
    and nm: "names (queue d) = [''a'', ''b'']" and sh: "\<not> shutdownErr d" by blast
  have b: "byName ex_store ''b'' \<noteq> None" by (simp add: ex_store_def)
  obtain d2 where sw: "sweep ex_store 3600000000005 = Inr d2"
    using sweep_total[of ex_store rec_hook] by (auto simp: ex_store_def)
  from names_unique[of _ _ _ _ _ d "''b''" ex_store "[]", OF ] r nm sh b sw store_ok_ex_store
  show ?thesis by blast
qed

section \<open>Remove\<close>



section \<open>Missing files\<close>

text \<open>
  C7. In the walk of a sweep, take an expired record whose paths (the companion of a
  tombstone, the file of the record) are each either deletable or not on the disk, so that
  \<open>os.Remove\<close> returns nil or an error for which \<open>os.IsNotExist\<close> holds. Whichever of
  the two it is, and for the companion as for the own file, the iteration does the same:
  the record leaves the queue and the index, the event \<open>deleted <name>\<close> is emitted,
  nothing is logged and the record does not join \<open>failed\<close>; the walk goes on with the
  next record.
\<close>

theorem missing_file_is_success:
  assumes "event d = Some h" and "expired now (e, fl)"
    and "\<forall>p \<in> set (targets (dir d) fl). disk d p = None \<or> disk d p = Some Deletable"
  shows "sweep_loop now ((e, fl) # rest) d failed =
           sweep_loop now rest
             (d\<lparr>queue := list_Remove e (queue d),
                byName := (byName d)(name fl := None),
                disk := (\<lambda>p. if p \<in> set (targets (dir d) fl) then None else disk d p),
                events := h (''deleted '' @ name fl) (events d),
                removes := removes d @ targets (dir d) fl\<rparr>)
             failed
       \<and> (\<forall>p. disk d p = None \<longrightarrow> os_IsNotExist (fst (os_Remove d p)))"
  using assms(2) deleteExpired_success[OF assms(1,3), of e]
  by (simp add: expired_def os_Remove_fst os_IsNotExist_def)

theorem missing_file_is_success_witness:
  "event ex_store = Some rec_hook
   \<and> expired 3600000000005 (2, \<lparr>name = ''a.deleted'', inserted = 0\<rparr>)
   \<and> targets (dir ex_store) \<lparr>name = ''a.deleted'', inserted = 0\<rparr> = [''d/a'', ''d/a.deleted'']
   \<and> disk ex_store ''d/a'' = None \<and> disk ex_store ''d/a.deleted'' = Some Deletable
   \<and> os_IsNotExist (fst (os_Remove ex_store ''d/a''))
   \<and> map_sum id (\<lambda>(d', fs). (names (queue d'), events d', logs d', fs, removes d',
                               disk d' ''d/a.deleted'', byName d' ''a.deleted''))
        (sweep_loop 3600000000005 [(2, \<lparr>name = ''a.deleted'', inserted = 0\<rparr>)] ex_store [])
      = Inr ([''b'', ''c''], [''deleted a.deleted''], [], [], [''d/a'', ''d/a.deleted''], None, None)"
proof -
  have t: "targets (dir ex_store) \<lparr>name = ''a.deleted'', inserted = 0\<rparr> = [''d/a'', ''d/a.deleted'']"
    by (simp add: targets_eq ex_store_def HasSuffix_def TrimSuffix_def deletedSuffix_def
        filepath_Join_def)
  have h: "event ex_store = Some rec_hook"
    and dk: "disk ex_store ''d/a'' = None" "disk ex_store ''d/a.deleted'' = Some Deletable"
    by (simp_all add: ex_store_def)
  have ex: "expired 3600000000005 (2, \<lparr>name = ''a.deleted'', inserted = 0\<rparr>)"
    by (simp add: expired_def time_Sub_def deleteDelay_def maxDuration_def minDuration_def)
  have pre: "\<forall>p \<in> set (targets (dir ex_store) \<lparr>name = ''a.deleted'', inserted = 0\<rparr>).
      disk ex_store p = None \<or> disk ex_store p = Some Deletable"
    unfolding t using dk by simp
  from missing_file_is_success[OF h ex pre, of "[]" "[]"] t h dk ex show ?thesis
    by (simp add: names_def list_Remove_def rec_hook_def)
       (simp add: ex_store_def)
qed

section \<open>The wait of the next worker\<close>

text \<open>
  C8, as amended. After a sweep at \<open>now\<close> that leaves a record at the front of the queue,
  with shutdown not begun, the next \<open>waitAndDelete\<close> is started with
  \<open>deleteDelay - now.Sub(inserted)\<close> of that record, as computed in 64 bits and with no
  clamp. The front record is younger than \<open>deleteDelay\<close> (it is the first record the walk
  did not reach, or a failed record inserted anew at \<open>now\<close>), so the duration is
  \<open>deleteDelay\<close> minus the age and positive whenever the subtraction does not overflow,
  that is, when the record's time is at most \<open>maxDuration - deleteDelay\<close> after \<open>now\<close>.
\<close>

theorem successor_wait_positive:
  assumes "waitAndDelete d wait (TimerFired now) = Inr d'" and "distinct (map fst (queue d))"
    and "queue d' = x # xs" and "\<not> shutdownErr d"
  shows "groupTasks d' = groupTasks d @ [WaitAndDelete (int64 (deleteDelay - time_Sub now (inserted (snd x))))]
       \<and> time_Sub now (inserted (snd x)) < deleteDelay
       \<and> (inserted (snd x) - now \<le> maxDuration - deleteDelay
            \<longrightarrow> int64 (deleteDelay - time_Sub now (inserted (snd x))) = deleteDelay - (now - inserted (snd x))
              \<and> 0 < int64 (deleteDelay - time_Sub now (inserted (snd x))))"
proof -
  from assms(1) obtain h d2 where
    sw: "sweep (d\<lparr>events := h ''start waitAndDelete'' (events d)\<rparr>) now = Inr d2"
    and d': "d' = d2\<lparr>events := h ''end waitAndDelete'' (events d2)\<rparr>"
    by (auto elim: waitAndDelete_TimerFired)
  have q2: "queue d2 = x # xs" using assms(3) by (simp add: d')
  have g: "groupTasks d' = groupTasks d @ [WaitAndDelete (int64 (deleteDelay - time_Sub now (inserted (snd x))))]"
    using sweep_groupTasks[OF sw] q2 assms(4) by (simp add: d')
  have young: "time_Sub now (inserted (snd x)) < deleteDelay"
    using sweep_front_young[OF sw _ q2] assms(2) by simp
  have pos: "int64 (deleteDelay - time_Sub now (inserted (snd x))) = deleteDelay - (now - inserted (snd x))
              \<and> 0 < int64 (deleteDelay - time_Sub now (inserted (snd x)))"
    if "inserted (snd x) - now \<le> maxDuration - deleteDelay"
  proof -
    have ts: "time_Sub now (inserted (snd x)) = now - inserted (snd x)"
      using that young
      by (auto simp: time_Sub_def maxDuration_def minDuration_def deleteDelay_def split: if_splits)
    have "int64 (deleteDelay - (now - inserted (snd x))) = deleteDelay - (now - inserted (snd x))"
      using that young ts by (intro int64_id) (simp_all add: minDuration_def deleteDelay_def)
    then show ?thesis using young ts by simp
  qed
  show ?thesis using g young pos by blast
qed

theorem successor_wait_positive_witness:
  "\<exists>d'. waitAndDelete ex_store deleteDelay (TimerFired 3600000000005) = Inr d'
     \<and> distinct (map fst (queue ex_store)) \<and> \<not> shutdownErr ex_store
     \<and> queue d' = [(4, \<lparr>name = ''c'', inserted = 10\<rparr>), (3, \<lparr>name = ''b'', inserted = 3600000000005\<rparr>)]
     \<and> (10 :: int) - 3600000000005 \<le> maxDuration - deleteDelay
     \<and> groupTasks d' = groupTasks ex_store @ [WaitAndDelete 5]"
proof -
  have "\<exists>d'. waitAndDelete ex_store deleteDelay (TimerFired 3600000000005) = Inr d'
     \<and> queue d' = [(4, \<lparr>name = ''c'', inserted = 10\<rparr>), (3, \<lparr>name = ''b'', inserted = 3600000000005\<rparr>)]"
    by (simp add: ev_defs)
  then obtain d' where r: "waitAndDelete ex_store deleteDelay (TimerFired 3600000000005) = Inr d'"
    and q: "queue d' = [(4, \<lparr>name = ''c'', inserted = 10\<rparr>), (3, \<lparr>name = ''b'', inserted = 3600000000005\<rparr>)]"
    by blast
  have dist: "distinct (map fst (queue ex_store))" and sh: "\<not> shutdownErr ex_store"
    by (simp_all add: ex_store_def)
  have le: "(10 :: int) - 3600000000005 \<le> maxDuration - deleteDelay"
    by (simp add: maxDuration_def deleteDelay_def)
  from successor_wait_positive[OF r dist q sh] le r q dist sh show ?thesis
    by (auto simp: deleteDelay_def)
qed

text \<open>
  The claim as it was stated fails: for a record whose time is \<open>2^63\<close> nanoseconds after
  \<open>now\<close>, \<open>now.Sub\<close> saturates at the smallest duration, the subtraction wraps around,
  and the next \<open>waitAndDelete\<close> is started with a negative duration.
\<close>

theorem successor_wait_negative:
  "\<not> isl (waitAndDelete ex_future deleteDelay (TimerFired 0))
   \<and> names (queue (projr (waitAndDelete ex_future deleteDelay (TimerFired 0)))) = [''a'']
   \<and> \<not> shutdownErr (projr (waitAndDelete ex_future deleteDelay (TimerFired 0)))
   \<and> groupTasks (projr (waitAndDelete ex_future deleteDelay (TimerFired 0)))
        = [WaitAndDelete (- 9223368436854775808)]
   \<and> (- 9223368436854775808 :: int) < 0"
  by (simp add: ex_future_def rec_hook_def waitAndDelete_def call_event_def sweep_def
      time_Sub_def deleteDelay_def maxDuration_def minDuration_def respawn_def int64_def
      names_def)

section \<open>The event hook\<close>

text \<open>
  C9, as amended. The goroutines call the hook without testing it: the scan that \<open>Init\<close>
  starts calls it at \<open>start init\<close> and \<open>end init\<close>, \<open>waitAndDelete\<close> at
  \<open>start waitAndDelete\<close>, \<open>end waitAndDelete\<close> and, in the sweep, at every
  \<open>deleted <name>\<close>. With a hook that is not nil (one that does nothing included) both
  return, for every listing and every branch of the \<open>select\<close>; with a nil hook both panic
  at their first call. \<open>Insert\<close>, \<open>Remove\<close> and \<open>Shutdown\<close> do not call the hook.
\<close>

theorem hook_safety:
  "(event d = Some h \<longrightarrow>
      (\<exists>d'. waitAndDelete d wait w = Inr d') \<and> (\<exists>d'. initScan d des = Inr d'))
   \<and> (event d = None \<longrightarrow>
      waitAndDelete d wait w = Inl NilFuncCall \<and> initScan d des = Inl NilFuncCall)
   \<and> events (Insert d n) = events d \<and> events (Remove d n) = events d
   \<and> events (Shutdown d) = events d"
proof -
  have A: "(\<exists>d'. waitAndDelete d wait w = Inr d') \<and> (\<exists>d'. initScan d des = Inr d')"
    if "event d = Some h"
    using waitAndDelete_total[OF that] initScan_total[OF that] by blast
  have B: "waitAndDelete d wait w = Inl NilFuncCall \<and> initScan d des = Inl NilFuncCall"
    if "event d = None"
    using that by (simp add: waitAndDelete_def initScan_def call_event_def)
  have C: "events (Insert d n) = events d \<and> events (Remove d n) = events d
      \<and> events (Shutdown d) = events d"
    by (simp add: Insert_frame Remove_frame Shutdown_def)
  show ?thesis using A B C by blast
qed

theorem hook_safety_witness:
  "event ex_store = Some rec_hook
   \<and> (\<exists>d'. waitAndDelete ex_store deleteDelay (TimerFired 3600000000005) = Inr d')
   \<and> (\<exists>d'. initScan ex_store [\<lparr>Name = ''x.partial'', IsRegular = True\<rparr>] = Inr d')
   \<and> event (ex_store\<lparr>event := None\<rparr>) = None
   \<and> waitAndDelete (ex_store\<lparr>event := None\<rparr>) deleteDelay EmptySignal = Inl NilFuncCall
   \<and> initScan (ex_store\<lparr>event := None\<rparr>) [] = Inl NilFuncCall"
proof -
  have h: "event ex_store = Some rec_hook" by (simp add: ex_store_def)
  have n: "event (ex_store\<lparr>event := None\<rparr>) = None" by simp
  from hook_safety[of ex_store rec_hook deleteDelay "TimerFired 3600000000005"
      "[\<lparr>Name = ''x.partial'', IsRegular = True\<rparr>]" "''a''"]
    hook_safety[of "ex_store\<lparr>event := None\<rparr>" rec_hook deleteDelay EmptySignal "[]" "''a''"]
    h n show ?thesis by blast
qed

text \<open>
  The claim as it was stated fails: with a nil hook the worker and the scan panic.
\<close>

theorem nil_hook_panics:
  "waitAndDelete (ex_store\<lparr>event := None\<rparr>) deleteDelay (TimerFired 3600000000005)
     = Inl NilFuncCall
   \<and> initScan (ex_store\<lparr>event := None\<rparr>) [] = Inl NilFuncCall"
  by (simp add: waitAndDelete_def initScan_def call_event_def)

section \<open>The cold-start scan\<close>

text \<open>
  C4. The function that \<open>Init\<close> gives to \<open>rangeDir\<close> treats a directory entry by the
  first case that applies. Once shutdown has begun it returns false and changes nothing,
  and the scan stops there: no later entry is looked at. An entry that is not a regular
  file is skipped. A regular entry whose name contains \<open>partialSuffix\<close> is given to
  \<open>Insert\<close>. A regular entry whose name contains \<open>deletedSuffix\<close> (and not
  \<open>partialSuffix\<close>) has its companion, the name without the suffix, given to
  \<open>os.Remove\<close>, and if that succeeds the tombstone itself; when both succeed nothing is
  inserted, and in every other case the name of the tombstone is given to \<open>Insert\<close>. Any
  other regular entry is left alone. In all cases but shutdown the scan goes on with the
  next entry.
\<close>

theorem scan_cases:
  "(shutdownErr d \<longrightarrow> scanEntry de d = (False, d) \<and> rangeDir (de # des) scanEntry d = d)
   \<and> (\<not> shutdownErr d \<longrightarrow>
        rangeDir (de # des) scanEntry d = rangeDir des scanEntry (snd (scanEntry de d)))
   \<and> (\<not> shutdownErr d \<and> \<not> IsRegular de \<longrightarrow> scanEntry de d = (True, d))
   \<and> (\<not> shutdownErr d \<and> IsRegular de \<and> Contains (Name de) partialSuffix \<longrightarrow>
        scanEntry de d = (True, Insert d (Name de)))
   \<and> (\<not> shutdownErr d \<and> IsRegular de \<and> \<not> Contains (Name de) partialSuffix
        \<and> Contains (Name de) deletedSuffix \<longrightarrow>
        (let comp = filepath_Join (dir d) (TrimSuffix (Name de) deletedSuffix);
             own = filepath_Join (dir d) (Name de)
         in scanEntry de d =
              (if disk d comp = Some Deletable
               then (if ((disk d)(comp := None)) own = Some Deletable
                     then (True, d\<lparr>disk := (disk d)(comp := None, own := None),
                                   removes := removes d @ [comp, own]\<rparr>)
                     else (True, Insert (d\<lparr>disk := (disk d)(comp := None),
                                           removes := removes d @ [comp, own]\<rparr>) (Name de)))
               else (True, Insert (d\<lparr>removes := removes d @ [comp]\<rparr>) (Name de)))))
   \<and> (\<not> shutdownErr d \<and> IsRegular de \<and> \<not> Contains (Name de) partialSuffix
        \<and> \<not> Contains (Name de) deletedSuffix \<longrightarrow> scanEntry de d = (True, d))"
proof -
  have t: "fst (scanEntry de d) = True" if "\<not> shutdownErr d"
    using that by (simp add: scanEntry_def Let_def split_beta)
  have A: "rangeDir (de # des) scanEntry d = rangeDir des scanEntry (snd (scanEntry de d))"
    if "\<not> shutdownErr d"
    using t[OF that] by (cases "scanEntry de d") simp
  have B: "scanEntry de d = (False, d) \<and> rangeDir (de # des) scanEntry d = d" if "shutdownErr d"
    using that by (simp add: scanEntry_def)
  have C: "let comp = filepath_Join (dir d) (TrimSuffix (Name de) deletedSuffix);
             own = filepath_Join (dir d) (Name de)
         in scanEntry de d =
              (if disk d comp = Some Deletable
               then (if ((disk d)(comp := None)) own = Some Deletable
                     then (True, d\<lparr>disk := (disk d)(comp := None, own := None),
                                   removes := removes d @ [comp, own]\<rparr>)
                     else (True, Insert (d\<lparr>disk := (disk d)(comp := None),
                                           removes := removes d @ [comp, own]\<rparr>) (Name de)))
               else (True, Insert (d\<lparr>removes := removes d @ [comp]\<rparr>) (Name de)))"
    if "\<not> shutdownErr d" "IsRegular de" "\<not> Contains (Name de) partialSuffix"
      "Contains (Name de) deletedSuffix"
    using that
    by (auto simp: scanEntry_def Let_def os_Remove_def split: option.splits fentry.splits)
  have D: "scanEntry de d = (True, d)" if "\<not> shutdownErr d" "\<not> IsRegular de"
    using that by (simp add: scanEntry_def)
  have E: "scanEntry de d = (True, Insert d (Name de))"
    if "\<not> shutdownErr d" "IsRegular de" "Contains (Name de) partialSuffix"
    using that by (simp add: scanEntry_def)
  have F: "scanEntry de d = (True, d)"
    if "\<not> shutdownErr d" "IsRegular de" "\<not> Contains (Name de) partialSuffix"
      "\<not> Contains (Name de) deletedSuffix"
    using that by (simp add: scanEntry_def)
  show ?thesis
  proof (intro conjI impI)
    assume "shutdownErr d"
    then show "scanEntry de d = (False, d)" "rangeDir (de # des) scanEntry d = d"
      using B by blast+
  next
    assume "\<not> shutdownErr d"
    then show "rangeDir (de # des) scanEntry d = rangeDir des scanEntry (snd (scanEntry de d))"
      by (rule A)
  next
    assume "\<not> shutdownErr d \<and> \<not> IsRegular de"
    then show "scanEntry de d = (True, d)" using D by blast
  next
    assume "\<not> shutdownErr d \<and> IsRegular de \<and> Contains (Name de) partialSuffix"
    then show "scanEntry de d = (True, Insert d (Name de))" using E by blast
  next
    assume "\<not> shutdownErr d \<and> IsRegular de \<and> \<not> Contains (Name de) partialSuffix
        \<and> Contains (Name de) deletedSuffix"
    then have "\<not> shutdownErr d" "IsRegular de" "\<not> Contains (Name de) partialSuffix"
      "Contains (Name de) deletedSuffix" by simp_all
    then show "let comp = filepath_Join (dir d) (TrimSuffix (Name de) deletedSuffix);
             own = filepath_Join (dir d) (Name de)
         in scanEntry de d =
              (if disk d comp = Some Deletable
               then (if ((disk d)(comp := None)) own = Some Deletable
                     then (True, d\<lparr>disk := (disk d)(comp := None, own := None),
                                   removes := removes d @ [comp, own]\<rparr>)
                     else (True, Insert (d\<lparr>disk := (disk d)(comp := None),
                                           removes := removes d @ [comp, own]\<rparr>) (Name de)))
               else (True, Insert (d\<lparr>removes := removes d @ [comp]\<rparr>) (Name de)))"
      by (rule C)
  next
    assume "\<not> shutdownErr d \<and> IsRegular de \<and> \<not> Contains (Name de) partialSuffix
        \<and> \<not> Contains (Name de) deletedSuffix"
    then show "scanEntry de d = (True, d)" using F by blast
  qed
qed

theorem scan_cases_witness:
  "shutdownErr (Shutdown ex_cold)
   \<and> scanEntry \<lparr>Name = ''fileA.partial'', IsRegular = True\<rparr> (Shutdown ex_cold) = (False, Shutdown ex_cold)
   \<and> rangeDir [\<lparr>Name = ''fileA.partial'', IsRegular = True\<rparr>, \<lparr>Name = ''fileB.deleted'', IsRegular = True\<rparr>]
        scanEntry (Shutdown ex_cold) = Shutdown ex_cold
   \<and> \<not> shutdownErr ex_cold
   \<and> \<not> IsRegular \<lparr>Name = ''sub.partial'', IsRegular = False\<rparr>
   \<and> scanEntry \<lparr>Name = ''sub.partial'', IsRegular = False\<rparr> ex_cold = (True, ex_cold)
   \<and> Contains ''fileA.partial'' partialSuffix
   \<and> scanEntry \<lparr>Name = ''fileA.partial'', IsRegular = True\<rparr> ex_cold = (True, Insert ex_cold ''fileA.partial'')
   \<and> \<not> Contains ''fileB.deleted'' partialSuffix \<and> Contains ''fileB.deleted'' deletedSuffix
   \<and> disk ex_cold ''d/fileB'' = Some Deletable \<and> disk ex_cold ''d/fileB.deleted'' = Some Deletable
   \<and> scanEntry \<lparr>Name = ''fileB.deleted'', IsRegular = True\<rparr> ex_cold
        = (True, ex_cold\<lparr>disk := (disk ex_cold)(''d/fileB'' := None, ''d/fileB.deleted'' := None),
                       removes := [''d/fileB'', ''d/fileB.deleted'']\<rparr>)
   \<and> \<not> Contains ''readme'' partialSuffix \<and> \<not> Contains ''readme'' deletedSuffix
   \<and> scanEntry \<lparr>Name = ''readme'', IsRegular = True\<rparr> ex_cold = (True, ex_cold)
   \<and> names (queue (rangeDir [\<lparr>Name = ''fileA.partial'', IsRegular = True\<rparr>,
                               \<lparr>Name = ''fileB.deleted'', IsRegular = True\<rparr>] scanEntry ex_cold))
        = [''fileA.partial'']"
proof -
  let ?A = "\<lparr>Name = ''fileA.partial'', IsRegular = True\<rparr>"
  let ?B = "\<lparr>Name = ''fileB.deleted'', IsRegular = True\<rparr>"
  have sh: "shutdownErr (Shutdown ex_cold)" "\<not> shutdownErr ex_cold"
    by (simp_all add: Shutdown_def ex_cold_def Init_def)
  have cA: "Contains ''fileA.partial'' partialSuffix"
    and cB: "\<not> Contains ''fileB.deleted'' partialSuffix" "Contains ''fileB.deleted'' deletedSuffix"
    and cR: "\<not> Contains ''readme'' partialSuffix" "\<not> Contains ''readme'' deletedSuffix"
    by (simp_all add: partialSuffix_def deletedSuffix_def)
  have dk: "disk ex_cold ''d/fileB'' = Some Deletable" "disk ex_cold ''d/fileB.deleted'' = Some Deletable"
    and dr: "dir ex_cold = ''d''" and rm: "removes ex_cold = []"
    by (simp_all add: ex_cold_def Init_def)
  have tr: "TrimSuffix ''fileB.deleted'' deletedSuffix = ''fileB''"
    by (simp add: TrimSuffix_def HasSuffix_def deletedSuffix_def)
  note s1 = scan_cases[of "Shutdown ex_cold" ?A "[?B]", THEN conjunct1, THEN mp, OF sh(1)]
  note s2 = scan_cases[of ex_cold "\<lparr>Name = ''sub.partial'', IsRegular = False\<rparr>" "[]",
      THEN conjunct2, THEN conjunct2, THEN conjunct1, THEN mp]
  note s3 = scan_cases[of ex_cold ?A "[?B]",
      THEN conjunct2, THEN conjunct2, THEN conjunct2, THEN conjunct1, THEN mp]
  note s4 = scan_cases[of ex_cold ?B "[]",
      THEN conjunct2, THEN conjunct2, THEN conjunct2, THEN conjunct2, THEN conjunct1, THEN mp]
  note s5 = scan_cases[of ex_cold "\<lparr>Name = ''readme'', IsRegular = True\<rparr>" "[]",
      THEN conjunct2, THEN conjunct2, THEN conjunct2, THEN conjunct2, THEN conjunct2, THEN mp]
  have r2: "scanEntry \<lparr>Name = ''sub.partial'', IsRegular = False\<rparr> ex_cold = (True, ex_cold)"
    using sh(2) by (intro s2) simp
  have r3: "scanEntry ?A ex_cold = (True, Insert ex_cold ''fileA.partial'')"
    using s3 sh(2) cA by simp
  have r4: "scanEntry ?B ex_cold
        = (True, ex_cold\<lparr>disk := (disk ex_cold)(''d/fileB'' := None, ''d/fileB.deleted'' := None),
                       removes := [''d/fileB'', ''d/fileB.deleted'']\<rparr>)"
    using s4 sh(2) cB dk by (simp add: Let_def tr dr rm filepath_Join_def)
  have r5: "scanEntry \<lparr>Name = ''readme'', IsRegular = True\<rparr> ex_cold = (True, ex_cold)"
    using s5 sh(2) cR by simp
  have whole: "names (queue (rangeDir [?A, ?B] scanEntry ex_cold)) = [''fileA.partial'']"
    by (simp add: scanEntry_def partialSuffix_def deletedSuffix_def TrimSuffix_def HasSuffix_def
        os_Remove_def filepath_Join_def Insert_def ex_cold_def Init_def names_def Let_def)
  show ?thesis
    using sh s1 r2 cA r3 cB dk r4 cR r5 whole by simp
qed

section \<open>A missing companion in the scan\<close>

text \<open>
  C10. In the tombstone case of the scan, when \<open>os.Remove\<close> of the companion does not
  return nil, for whatever reason and also when the companion is not on the disk, the
  tombstone is not given to \<open>os.Remove\<close>: the disk stays as it is and the name of the
  tombstone is given to \<open>Insert\<close> (a new record at the back of the queue when the index
  does not have the name). The sweep differs: for a record of that name whose companion is
  not on the disk, \<open>deleteExpired\<close> goes on, removes the tombstone and takes the record
  out of the queue without logging.
\<close>

theorem scan_missing_companion:
  assumes "\<not> shutdownErr d" and "IsRegular de"
    and "\<not> Contains (Name de) partialSuffix" and "Contains (Name de) deletedSuffix"
    and "disk d (filepath_Join (dir d) (TrimSuffix (Name de) deletedSuffix)) \<noteq> Some Deletable"
  shows "scanEntry de d =
           (True, Insert (d\<lparr>removes := removes d
                     @ [filepath_Join (dir d) (TrimSuffix (Name de) deletedSuffix)]\<rparr>) (Name de))
       \<and> disk (snd (scanEntry de d)) = disk d
       \<and> (byName d (Name de) = None \<longrightarrow>
            queue (snd (scanEntry de d))
              = queue d @ [(nextElem d, \<lparr>name = Name de, inserted = clock d (ticks d)\<rparr>)])
       \<and> (event d = Some h \<and> HasSuffix (Name de) deletedSuffix
            \<and> disk d (filepath_Join (dir d) (TrimSuffix (Name de) deletedSuffix)) = None
            \<and> disk d (filepath_Join (dir d) (Name de)) = Some Deletable \<longrightarrow>
            (\<exists>d1. deleteExpired e \<lparr>name = Name de, inserted = t\<rparr> d = Inr (d1, False)
               \<and> disk d1 (filepath_Join (dir d) (Name de)) = None
               \<and> queue d1 = list_Remove e (queue d) \<and> logs d1 = logs d))"
proof -
  let ?comp = "filepath_Join (dir d) (TrimSuffix (Name de) deletedSuffix)"
  have 1: "scanEntry de d = (True, Insert (d\<lparr>removes := removes d @ [?comp]\<rparr>) (Name de))"
    using assms
    by (auto simp: scanEntry_def Let_def os_Remove_def split: option.splits fentry.splits)
  have 2: "disk (snd (scanEntry de d)) = disk d" by (simp add: 1 Insert_frame)
  have 3: "queue (snd (scanEntry de d))
              = queue d @ [(nextElem d, \<lparr>name = Name de, inserted = clock d (ticks d)\<rparr>)]"
    if "byName d (Name de) = None"
    using that assms(1) by (simp add: 1 Insert_def Let_def)
  have 4: "\<exists>d1. deleteExpired e \<lparr>name = Name de, inserted = t\<rparr> d = Inr (d1, False)
               \<and> disk d1 (filepath_Join (dir d) (Name de)) = None
               \<and> queue d1 = list_Remove e (queue d) \<and> logs d1 = logs d"
    if h: "event d = Some h" and suf: "HasSuffix (Name de) deletedSuffix"
      and c: "disk d ?comp = None" and o: "disk d (filepath_Join (dir d) (Name de)) = Some Deletable"
  proof -
    have pre: "\<forall>p \<in> set (targets (dir d) \<lparr>name = Name de, inserted = t\<rparr>).
        disk d p = None \<or> disk d p = Some Deletable"
      using suf c o by (simp add: targets_eq)
    show ?thesis
      unfolding deleteExpired_success[OF h pre, of e]
      by (simp add: targets_eq)
  qed
  show ?thesis using 1 2 3 4 by blast
qed

theorem scan_missing_companion_witness:
  "\<not> shutdownErr ex_store \<and> IsRegular \<lparr>Name = ''z.deleted'', IsRegular = True\<rparr>
   \<and> \<not> Contains ''z.deleted'' partialSuffix \<and> Contains ''z.deleted'' deletedSuffix
   \<and> disk ex_store ''d/z'' = None
   \<and> removes (snd (scanEntry \<lparr>Name = ''z.deleted'', IsRegular = True\<rparr> ex_store)) = [''d/z'']
   \<and> disk (snd (scanEntry \<lparr>Name = ''z.deleted'', IsRegular = True\<rparr> ex_store)) = disk ex_store
   \<and> names (queue (snd (scanEntry \<lparr>Name = ''z.deleted'', IsRegular = True\<rparr> ex_store)))
        = [''a.deleted'', ''b'', ''c'', ''z.deleted'']
   \<and> (\<exists>d1. deleteExpired 2 \<lparr>name = ''a.deleted'', inserted = 0\<rparr> ex_store = Inr (d1, False)
          \<and> disk d1 ''d/a.deleted'' = None \<and> names (queue d1) = [''b'', ''c''])"
proof -
  let ?Z = "\<lparr>Name = ''z.deleted'', IsRegular = True\<rparr>"
  let ?A = "\<lparr>Name = ''a.deleted'', IsRegular = True\<rparr>"
  have sh: "\<not> shutdownErr ex_store" and rg: "IsRegular ?Z" "IsRegular ?A"
    and h: "event ex_store = Some rec_hook" and dr: "dir ex_store = ''d''"
    and rm: "removes ex_store = []"
    by (simp_all add: ex_store_def)
  have cZ: "\<not> Contains (Name ?Z) partialSuffix" "Contains (Name ?Z) deletedSuffix"
    and cA: "\<not> Contains (Name ?A) partialSuffix" "Contains (Name ?A) deletedSuffix"
    by (simp_all add: partialSuffix_def deletedSuffix_def)
  have tr: "TrimSuffix ''z.deleted'' deletedSuffix = ''z''"
    "TrimSuffix ''a.deleted'' deletedSuffix = ''a''" "HasSuffix ''a.deleted'' deletedSuffix"
    by (simp_all add: TrimSuffix_def HasSuffix_def deletedSuffix_def)
  have dk: "disk ex_store ''d/z'' = None" "disk ex_store ''d/a'' = None"
    "disk ex_store ''d/a.deleted'' = Some Deletable"
    and bz: "byName ex_store ''z.deleted'' = None"
    by (simp_all add: ex_store_def)
  have mZ: "disk ex_store (filepath_Join (dir ex_store) (TrimSuffix (Name ?Z) deletedSuffix))
      \<noteq> Some Deletable"
    and mA: "disk ex_store (filepath_Join (dir ex_store) (TrimSuffix (Name ?A) deletedSuffix))
      \<noteq> Some Deletable"
    by (simp_all add: tr dr dk filepath_Join_def)
  note z = scan_missing_companion[OF sh rg(1) cZ mZ, of rec_hook 0 0]
  note a = scan_missing_companion[OF sh rg(2) cA mA, of rec_hook 2 0]
  have z1: "removes (snd (scanEntry ?Z ex_store)) = [''d/z'']"
    using z[THEN conjunct1] by (simp add: Insert_frame tr dr rm filepath_Join_def)
  have z2: "disk (snd (scanEntry ?Z ex_store)) = disk ex_store"
    by (rule z[THEN conjunct2, THEN conjunct1])
  have z3: "names (queue (snd (scanEntry ?Z ex_store))) = [''a.deleted'', ''b'', ''c'', ''z.deleted'']"
    using z[THEN conjunct2, THEN conjunct2, THEN conjunct1] bz
    by (simp add: names_def) (simp add: ex_store_def)
  have a4: "\<exists>d1. deleteExpired 2 \<lparr>name = ''a.deleted'', inserted = 0\<rparr> ex_store = Inr (d1, False)
          \<and> disk d1 ''d/a.deleted'' = None \<and> names (queue d1) = [''b'', ''c'']"
  proof -
    from a[THEN conjunct2, THEN conjunct2, THEN conjunct2] h tr(3) dk
    obtain d1 where d1: "deleteExpired 2 \<lparr>name = ''a.deleted'', inserted = 0\<rparr> ex_store = Inr (d1, False)"
      "disk d1 ''d/a.deleted'' = None" "queue d1 = list_Remove 2 (queue ex_store)"
      by (auto simp: tr dr filepath_Join_def)
    have "names (queue d1) = [''b'', ''c'']"
      unfolding d1(3) by (simp add: names_def list_Remove_def ex_store_def)
    then show ?thesis using d1(1,2) by blast
  qed
  show ?thesis
    using sh rg(1) cZ dk(1) z1 z2 z3 a4 by simp
qed

end
